theory Spec2Isabelle
  imports Main "HOL-Library.AList" "HOL-Library.Sublist"
begin

section \<open>Python strings and POSIX path functions\<close>

text \<open>
  A Python \<open>str\<close> is modelled as a \<open>string\<close> whose characters are the code points
  below 256.  \<open>str.lower\<close> maps \<open>A..Z\<close> and the upper-case letters of the Latin-1 block
  to their lower-case forms and leaves every other character alone.
\<close>

definition lower_char :: "char \<Rightarrow> char" where
  "lower_char c =
     (let n = (of_char c :: nat)
      in if (65 \<le> n \<and> n \<le> 90) \<or> (192 \<le> n \<and> n \<le> 222 \<and> n \<noteq> 215)
         then char_of (n + 32) else c)"

definition lower :: "string \<Rightarrow> string" where
  "lower s = map lower_char s"

text \<open>\<open>s.split(sep)\<close> for a one-character separator; the result is never empty.\<close>

fun split_on :: "char \<Rightarrow> string \<Rightarrow> string list" where
  "split_on c [] = [[]]"
| "split_on c (x # xs) =
     (if x = c then [] # split_on c xs
      else (case split_on c xs of [] \<Rightarrow> [[x]] | y # ys \<Rightarrow> (x # y) # ys))"

datatype error =
    FileNotFoundError
  | IndexError
  | TypeError
  | OSError
  | NotADirectoryError
  | IsADirectoryError
  | FileExistsError
  | SameFileError
  | PermissionError
  | SystemExit nat

text \<open>\<open>xs[-2]\<close>: the last element but one, IndexError when there are fewer than two.\<close>

definition index_m2 :: "'a list \<Rightarrow> error + 'a" where
  "index_m2 xs = (if length xs < 2 then Inl IndexError else Inr (xs ! (length xs - 2)))"

text \<open>\<open>s[-7:]\<close>: the last seven characters, the whole string when it is shorter.\<close>

definition last7 :: "string \<Rightarrow> string" where
  "last7 s = drop (length s - 7) s"

text \<open>\<open>os.path.basename(p)\<close> is \<open>p[p.rfind('/') + 1:]\<close>.\<close>

definition basename :: "string \<Rightarrow> string" where
  "basename p = rev (takeWhile (\<lambda>c. c \<noteq> CHR ''/'') (rev p))"

definition rstrip_slash :: "string \<Rightarrow> string" where
  "rstrip_slash s = rev (dropWhile (\<lambda>c. c = CHR ''/'') (rev s))"

text \<open>
  \<open>os.path.split(p)\<close>: the head is everything up to the last slash, without its trailing
  slashes unless it consists of slashes only; the tail is the basename.
\<close>

definition os_path_split :: "string \<Rightarrow> string \<times> string" where
  "os_path_split p =
     (let tail = basename p;
          head = take (length p - length tail) p
      in (if head \<noteq> [] \<and> filter (\<lambda>c. c \<noteq> CHR ''/'') head \<noteq> [] then rstrip_slash head else head,
          tail))"

text \<open>\<open>os.path.join(a, b)\<close> of posixpath, for two arguments.\<close>

definition path_join :: "string \<Rightarrow> string \<Rightarrow> string" where
  "path_join a b =
     (if b \<noteq> [] \<and> hd b = CHR ''/'' then b
      else if a = [] \<or> last a = CHR ''/'' then a @ b
      else a @ ''/'' @ b)"

section \<open>The file system\<close>

text \<open>
  The file system is a table from absolute paths, given as lists of components, to nodes;
  the order of the table is the order in which the system enumerates directory entries.
  A path string is resolved by splitting it at the slashes, dropping empty components
  and \<open>.\<close>, and stepping to the parent on \<open>..\<close>; a relative path starts at the working
  directory.  Resolution is lexical: a path names what its normal form names, and the
  model does not ask that the directories it passes through before a \<open>..\<close>, or the
  directory that a \<open>.\<close> or a trailing slash stands for, exist.  It agrees with the
  operating system on every path whose proper prefixes all name existing directories.
  There are no symbolic links, names are case-sensitive, and no operation fails for
  lack of permission or space.
\<close>

text \<open>
  A file holds either data (what the oscilloscope wrote) or one of the two notebook
  documents the set-up script generates; a notebook is identified by what determines it:
  the lab number, the number of exercises and the students (name and id).
\<close>

datatype content =
    Data string
  | PrelabNotebook int int "(string \<times> string) list"
  | LabReportNotebook int int "(string \<times> string) list"

datatype node = Dir | File content

record world =
  files :: "(string list \<times> node) list"
  cwd :: "string list"
  open_fds :: "nat list"

definition lookup :: "world \<Rightarrow> string list \<Rightarrow> node option" where
  "lookup w k = (if k = [] then Some Dir else map_of (files w) k)"

definition step :: "string list \<Rightarrow> string \<Rightarrow> string list" where
  "step acc c =
     (if c = [] \<or> c = ''.'' then acc
      else if c = ''..'' then butlast acc
      else acc @ [c])"

definition is_abs :: "string \<Rightarrow> bool" where
  "is_abs p = (p \<noteq> [] \<and> hd p = CHR ''/'')"

definition resolve :: "world \<Rightarrow> string \<Rightarrow> string list" where
  "resolve w p = foldl step (if is_abs p then [] else cwd w) (split_on CHR ''/'' p)"

text \<open>\<open>os.path.exists\<close> and \<open>os.path.isdir\<close>; the empty path names nothing.\<close>

definition path_exists :: "world \<Rightarrow> string \<Rightarrow> bool" where
  "path_exists w p = (p \<noteq> [] \<and> lookup w (resolve w p) \<noteq> None)"

definition isdir :: "world \<Rightarrow> string \<Rightarrow> bool" where
  "isdir w p = (p \<noteq> [] \<and> lookup w (resolve w p) = Some Dir)"

text \<open>
  A directory entry is a name: not empty, without a slash, and neither \<open>.\<close> nor \<open>..\<close>.
  The entries of a directory are the paths of the table one such name below it.
\<close>

definition plain :: "string \<Rightarrow> bool" where
  "plain n = (n \<noteq> [] \<and> n \<noteq> ''.'' \<and> n \<noteq> ''..'' \<and> CHR ''/'' \<notin> set n)"

definition children :: "world \<Rightarrow> string list \<Rightarrow> string list list" where
  "children w k =
     filter (\<lambda>k'. k' \<noteq> [] \<and> butlast k' = k \<and> plain (last k')) (map fst (files w))"

definition listdir :: "world \<Rightarrow> string list \<Rightarrow> string list" where
  "listdir w k = (if lookup w k = Some Dir then map last (children w k) else [])"

definition put :: "world \<Rightarrow> string list \<Rightarrow> node \<Rightarrow> world" where
  "put w k n = w\<lparr>files := AList.update k n (files w)\<rparr>"

definition mkdir_key :: "world \<Rightarrow> string list \<Rightarrow> (error + unit) \<times> world" where
  "mkdir_key w k =
     (if lookup w k \<noteq> None then (Inl FileExistsError, w)
      else (case lookup w (butlast k) of
              None \<Rightarrow> (Inl FileNotFoundError, w)
            | Some (File c) \<Rightarrow> (Inl NotADirectoryError, w)
            | Some Dir \<Rightarrow> (Inr (), put w k Dir)))"

text \<open>
  \<open>os.makedirs\<close> on a resolved path: a missing parent is made first, recursively, then
  the directory itself.
\<close>

function makedirs_key :: "world \<Rightarrow> string list \<Rightarrow> (error + unit) \<times> world" where
  "makedirs_key w k =
     (if k \<noteq> [] \<and> lookup w (butlast k) = None
      then (case makedirs_key w (butlast k) of
              (Inl e, w') \<Rightarrow> if e = FileExistsError then mkdir_key w' k else (Inl e, w')
            | (Inr u, w') \<Rightarrow> mkdir_key w' k)
      else mkdir_key w k)"
  by pat_completeness auto
termination
  by (relation "measure (\<lambda>(w, k). length k)") auto

declare makedirs_key.simps [simp del]

definition makedirs :: "world \<Rightarrow> string \<Rightarrow> (error + unit) \<times> world" where
  "makedirs w p = (if p = [] then (Inl FileNotFoundError, w) else makedirs_key w (resolve w p))"

text \<open>\<open>os.rmdir\<close>: only an empty directory can be removed.\<close>

definition rmdir :: "world \<Rightarrow> string \<Rightarrow> (error + unit) \<times> world" where
  "rmdir w p =
     (if p = [] then (Inl FileNotFoundError, w)
      else let k = resolve w p in
        (case lookup w k of
           None \<Rightarrow> (Inl FileNotFoundError, w)
         | Some (File c) \<Rightarrow> (Inl NotADirectoryError, w)
         | Some Dir \<Rightarrow>
             if k = [] \<or> children w k \<noteq> [] then (Inl OSError, w)
             else (Inr (), w\<lparr>files := filter (\<lambda>e. fst e \<noteq> k) (files w)\<rparr>)))"

text \<open>\<open>os.remove\<close>: removes a file; a directory is refused.\<close>

definition os_remove :: "world \<Rightarrow> string \<Rightarrow> (error + unit) \<times> world" where
  "os_remove w p =
     (if p = [] then (Inl FileNotFoundError, w)
      else let k = resolve w p in
        (case lookup w k of
           None \<Rightarrow> (Inl FileNotFoundError, w)
         | Some Dir \<Rightarrow> (Inl PermissionError, w)
         | Some (File c) \<Rightarrow> (Inr (), w\<lparr>files := filter (\<lambda>e. fst e \<noteq> k) (files w)\<rparr>)))"

text \<open>\<open>os.getcwd()\<close>: the working directory as a path string.\<close>

definition getcwd :: "world \<Rightarrow> string" where
  "getcwd w = (if cwd w = [] then ''/'' else concat (map (\<lambda>c. ''/'' @ c) (cwd w)))"

text \<open>Opening a path for writing and storing the content (\<open>open(p, 'wb')\<close> and write).\<close>

definition write_file :: "world \<Rightarrow> string \<Rightarrow> content \<Rightarrow> (error + unit) \<times> world" where
  "write_file w p c =
     (if p = [] then (Inl FileNotFoundError, w)
      else let k = resolve w p in
        (case lookup w k of
           Some Dir \<Rightarrow> (Inl IsADirectoryError, w)
         | _ \<Rightarrow>
             (case lookup w (butlast k) of
                None \<Rightarrow> (Inl FileNotFoundError, w)
              | Some (File c') \<Rightarrow> (Inl NotADirectoryError, w)
              | Some Dir \<Rightarrow> (Inr (), put w k (File c)))))"

text \<open>
  \<open>shutil.copyfile(src, dst)\<close>: SameFileError when both name the same existing file,
  then the source is opened for reading and the destination for writing.
\<close>

definition copyfile :: "world \<Rightarrow> string \<Rightarrow> string \<Rightarrow> (error + unit) \<times> world" where
  "copyfile w src dst =
     (if path_exists w src \<and> path_exists w dst \<and> resolve w src = resolve w dst
      then (Inl SameFileError, w)
      else if src = [] then (Inl FileNotFoundError, w)
      else (case lookup w (resolve w src) of
              None \<Rightarrow> (Inl FileNotFoundError, w)
            | Some Dir \<Rightarrow> (Inl IsADirectoryError, w)
            | Some (File c) \<Rightarrow> write_file w dst c))"

text \<open>
  \<open>shutil.copy(src, dst)\<close>: when the destination is a directory the file goes into it
  under the source's basename.
\<close>

definition shutil_copy :: "world \<Rightarrow> string \<Rightarrow> string \<Rightarrow> (error + unit) \<times> world" where
  "shutil_copy w src dst =
     copyfile w src (if isdir w dst then path_join dst (basename src) else dst)"

section \<open>glob\<close>

text \<open>
  \<open>fnmatch(name, pattern)\<close> for patterns built from literal characters, \<open>*\<close> and \<open>?\<close>
  (the three patterns of the program use \<open>*\<close> only).  Matching is case-sensitive, as
  posixpath's \<open>normcase\<close> is the identity.
\<close>

fun fnmatch :: "string \<Rightarrow> string \<Rightarrow> bool" where
  "fnmatch [] [] = True"
| "fnmatch (c # cs) [] = False"
| "fnmatch [] (p # ps) = (p = CHR ''*'' \<and> fnmatch [] ps)"
| "fnmatch (c # cs) (p # ps) =
     (if p = CHR ''*'' then fnmatch (c # cs) ps \<or> fnmatch cs (p # ps)
      else (p = CHR ''?'' \<or> p = c) \<and> fnmatch cs ps)"

definition has_magic :: "string \<Rightarrow> bool" where
  "has_magic s = list_ex (\<lambda>c. c = CHR ''*'' \<or> c = CHR ''?'' \<or> c = CHR ''['') s"

definition ishidden :: "string \<Rightarrow> bool" where
  "ishidden s = (s \<noteq> [] \<and> hd s = CHR ''.'')"

text \<open>The names in directory \<open>dirname\<close> that match the pattern; hidden names are skipped
  unless the pattern itself starts with a dot.\<close>

definition glob1 :: "world \<Rightarrow> string \<Rightarrow> string \<Rightarrow> string list" where
  "glob1 w dirname pattern =
     filter (\<lambda>n. fnmatch n pattern \<and> (ishidden pattern \<or> \<not> ishidden n))
       (listdir w (resolve w (if dirname = [] then ''.'' else dirname)))"

text \<open>
  \<open>glob.glob(pathname)\<close>.  The directory part of the pathname is taken literally: the
  program builds it from the drive location and from names found on the drive, and the
  model does not expand wildcards there.  It agrees with \<open>glob.glob\<close> on every pathname
  whose directory part has none of the characters \<open>*\<close>, \<open>?\<close> and \<open>[\<close>; a statement that
  depends on which folder is read says so with \<open>has_magic\<close>.
\<close>

definition glob :: "world \<Rightarrow> string \<Rightarrow> string list" where
  "glob w pathname =
     (let (dirname, bname) = os_path_split pathname
      in if \<not> has_magic pathname
         then (if bname \<noteq> []
               then (if path_exists w pathname then [pathname] else [])
               else (if isdir w dirname then [pathname] else []))
         else if dirname = [] then glob1 w [] bname
         else map (path_join dirname)
                (if has_magic bname then glob1 w dirname bname
                 else if bname = [] then (if isdir w dirname then [bname] else [])
                 else (if path_exists w (path_join dirname bname) then [bname] else [])))"

section \<open>The data copier (helper.py)\<close>

subsection \<open>File, CSVFile and JPGFile\<close>

record scope_file =
  location :: string
  name :: string

definition File_init :: "world \<Rightarrow> string \<Rightarrow> error + scope_file" where
  "File_init w loc =
     (if path_exists w loc then Inr \<lparr>location = loc, name = basename loc\<rparr>
      else Inl FileNotFoundError)"

text \<open>
  \<open>File.save\<close>.  The line printed when \<open>verbose or softrun\<close> is not part of the state;
  the copy happens only when \<open>softrun\<close> is off.
\<close>

definition save :: "world \<Rightarrow> scope_file \<Rightarrow> string \<Rightarrow> bool \<Rightarrow> bool \<Rightarrow> (error + unit) \<times> world" where
  "save w f destination verb softrun =
     (if \<not> path_exists w destination then (Inl FileNotFoundError, w)
      else if \<not> softrun then shutil_copy w (location f) (path_join destination (name f))
      else (Inr (), w))"

definition CSVFile_init :: "world \<Rightarrow> string \<Rightarrow> bool \<Rightarrow> error + scope_file" where
  "CSVFile_init w loc rename =
     (case File_init w loc of
        Inl e \<Rightarrow> Inl e
      | Inr f \<Rightarrow>
          if rename
          then (case index_m2 (split_on CHR ''/'' (location f)) of
                  Inl e \<Rightarrow> Inl e
                | Inr d \<Rightarrow> Inr (f\<lparr>name := lower (d @ ''.'' @ last7 (name f))\<rparr>))
          else Inr f)"

definition JPGFile_init :: "world \<Rightarrow> string \<Rightarrow> error + scope_file" where
  "JPGFile_init w loc =
     (case File_init w loc of
        Inl e \<Rightarrow> Inl e
      | Inr f \<Rightarrow>
          (case index_m2 (split_on CHR ''/'' (location f)) of
             Inl e \<Rightarrow> Inl e
           | Inr d \<Rightarrow> Inr (f\<lparr>name := lower d @ ''.jpg''\<rparr>)))"

subsection \<open>OscilloscopeDataCopier\<close>

record copier =
  drive_location :: string
  exercise_parts :: "string list"

definition OscilloscopeDataCopier_init :: "world \<Rightarrow> string \<Rightarrow> error + copier" where
  "OscilloscopeDataCopier_init w dname =
     (let dl = path_join ''/Volumes'' dname
      in if \<not> path_exists w dl then Inl FileNotFoundError
         else Inr \<lparr>drive_location = dl, exercise_parts = glob w (path_join dl ''E*P*'')\<rparr>)"

text \<open>The loop over the exercise parts that saves one JPG each.\<close>

fun jpg_loop :: "world \<Rightarrow> string \<Rightarrow> bool \<Rightarrow> bool \<Rightarrow> string list \<Rightarrow> (error + unit) \<times> world" where
  "jpg_loop w to_save_path verb softrun [] = (Inr (), w)"
| "jpg_loop w to_save_path verb softrun (exercise_part # rest) =
     (case glob w (path_join exercise_part ''*.JPG'') of
        [] \<Rightarrow> (Inl IndexError, w)
      | first # others \<Rightarrow>
          (case JPGFile_init w first of
             Inl e \<Rightarrow> (Inl e, w)
           | Inr f \<Rightarrow>
               (case save w f to_save_path verb softrun of
                  (Inl e, w') \<Rightarrow> (Inl e, w')
                | (Inr u, w') \<Rightarrow> jpg_loop w' to_save_path verb softrun rest)))"

text \<open>The \<open>if save_jpg:\<close> block.\<close>

definition save_jpgs :: "copier \<Rightarrow> world \<Rightarrow> string \<Rightarrow> bool \<Rightarrow> bool \<Rightarrow> (error + unit) \<times> world" where
  "save_jpgs self w destination verb softrun =
     (let to_save_path = path_join destination ''jpgs''
      in (case (if \<not> path_exists w to_save_path then makedirs w to_save_path else (Inr (), w)) of
            (Inl e, w1) \<Rightarrow> (Inl e, w1)
          | (Inr u, w1) \<Rightarrow>
              (case jpg_loop w1 to_save_path verb softrun (exercise_parts self) of
                 (Inl e, w2) \<Rightarrow> (Inl e, w2)
               | (Inr u, w2) \<Rightarrow> if softrun then rmdir w2 to_save_path else (Inr (), w2))))"

text \<open>The inner loop over the CSV files of one exercise part.\<close>

fun csv_files_loop :: "world \<Rightarrow> string \<Rightarrow> bool \<Rightarrow> bool \<Rightarrow> bool \<Rightarrow> string list \<Rightarrow> (error + unit) \<times> world" where
  "csv_files_loop w to_save_path rename_csv verb softrun [] = (Inr (), w)"
| "csv_files_loop w to_save_path rename_csv verb softrun (csv_file # rest) =
     (case CSVFile_init w csv_file rename_csv of
        Inl e \<Rightarrow> (Inl e, w)
      | Inr f \<Rightarrow>
          (case save w f to_save_path verb softrun of
             (Inl e, w') \<Rightarrow> (Inl e, w')
           | (Inr u, w') \<Rightarrow> csv_files_loop w' to_save_path rename_csv verb softrun rest))"

text \<open>The outer loop over the exercise parts.\<close>

fun csv_loop :: "world \<Rightarrow> string \<Rightarrow> bool \<Rightarrow> bool \<Rightarrow> bool \<Rightarrow> bool \<Rightarrow> string list \<Rightarrow> (error + unit) \<times> world" where
  "csv_loop w destination create_folders rename_csv verb softrun [] = (Inr (), w)"
| "csv_loop w destination create_folders rename_csv verb softrun (exercise_part # rest) =
     (let to_save_path =
            (if create_folders then path_join destination (basename exercise_part) else destination)
      in (case (if create_folders \<and> \<not> path_exists w to_save_path
                then makedirs w to_save_path else (Inr (), w)) of
            (Inl e, w1) \<Rightarrow> (Inl e, w1)
          | (Inr u, w1) \<Rightarrow>
              (case csv_files_loop w1 to_save_path rename_csv verb softrun
                      (glob w1 (path_join exercise_part ''*.CSV'')) of
                 (Inl e, w2) \<Rightarrow> (Inl e, w2)
               | (Inr u, w2) \<Rightarrow>
                   (case (if softrun \<and> create_folders then rmdir w2 to_save_path else (Inr (), w2)) of
                      (Inl e, w3) \<Rightarrow> (Inl e, w3)
                    | (Inr u, w3) \<Rightarrow>
                        csv_loop w3 destination create_folders rename_csv verb softrun rest))))"

definition copy_scope_data ::
  "copier \<Rightarrow> world \<Rightarrow> string \<Rightarrow> bool \<Rightarrow> bool \<Rightarrow> bool \<Rightarrow> bool \<Rightarrow> bool \<Rightarrow> (error + unit) \<times> world" where
  "copy_scope_data self w destination create_folders rename_csv save_jpg verb softrun =
     (if \<not> path_exists w destination then (Inl FileNotFoundError, w)
      else (case (if save_jpg then save_jpgs self w destination verb softrun else (Inr (), w)) of
              (Inl e, w1) \<Rightarrow> (Inl e, w1)
            | (Inr u, w1) \<Rightarrow>
                csv_loop w1 destination create_folders rename_csv verb softrun (exercise_parts self)))"

text \<open>
  Python does not enforce the annotation \<open>destination: str\<close>.  Called with a bool,
  \<open>os.path.exists(destination)\<close> asks whether the file descriptor 1 (for \<open>True\<close>) or 0
  (for \<open>False\<close>) is open, and every \<open>os.path.join(destination, ...)\<close> raises TypeError:
  in the \<open>save_jpg\<close> block, for the folder of the first exercise part when
  \<open>create_folders\<close> is on, and otherwise in \<open>File.save\<close> of the first CSV file (in the
  printed line or in the argument of the copy).
\<close>

fun csv_loop_bool :: "world \<Rightarrow> bool \<Rightarrow> bool \<Rightarrow> string list \<Rightarrow> (error + unit) \<times> world" where
  "csv_loop_bool w create_folders rename_csv [] = (Inr (), w)"
| "csv_loop_bool w create_folders rename_csv (exercise_part # rest) =
     (if create_folders then (Inl TypeError, w)
      else (case glob w (path_join exercise_part ''*.CSV'') of
              [] \<Rightarrow> csv_loop_bool w create_folders rename_csv rest
            | csv_file # others \<Rightarrow>
                (case CSVFile_init w csv_file rename_csv of
                   Inl e \<Rightarrow> (Inl e, w)
                 | Inr f \<Rightarrow> (Inl TypeError, w))))"

definition copy_scope_data_bool ::
  "copier \<Rightarrow> world \<Rightarrow> bool \<Rightarrow> bool \<Rightarrow> bool \<Rightarrow> bool \<Rightarrow> bool \<Rightarrow> bool \<Rightarrow> (error + unit) \<times> world" where
  "copy_scope_data_bool self w destination create_folders rename_csv save_jpg verb softrun =
     (if (if destination then 1 else 0) \<notin> set (open_fds w) then (Inl FileNotFoundError, w)
      else if save_jpg then (Inl TypeError, w)
      else csv_loop_bool w create_folders rename_csv (exercise_parts self))"

section \<open>The set-up script (setup\_lab.py)\<close>

text \<open>
  The parsed command line.  \<open>-c\<close> is a \<open>store_true\<close> flag, so \<open>args.c\<close> is a bool; the
  student lists are \<open>None\<close> when the option is absent.
\<close>

record args =
  arg_lab_number :: int
  arg_num_exercises :: int
  arg_generate_notebooks :: bool
  arg_verbose :: bool
  arg_drive_name :: string
  arg_c :: bool
  arg_prelab_only :: bool
  arg_student_names :: "string list option"
  arg_student_ids :: "string list option"

text \<open>\<open>not x\<close> for an optional list: true for \<open>None\<close> and for the empty list.\<close>

definition falsy :: "'a list option \<Rightarrow> bool" where
  "falsy x = (case x of None \<Rightarrow> True | Some xs \<Rightarrow> xs = [])"

definition list_of :: "'a list option \<Rightarrow> 'a list" where
  "list_of x = (case x of None \<Rightarrow> [] | Some xs \<Rightarrow> xs)"

text \<open>\<open>str(n)\<close> for an integer, as the f-strings use it.\<close>

function str_nat :: "nat \<Rightarrow> string" where
  "str_nat n = (if n < 10 then [char_of (48 + n)] else str_nat (n div 10) @ [char_of (48 + n mod 10)])"
  by pat_completeness auto
termination
  by (relation "measure (\<lambda>n. n)") auto

declare str_nat.simps [simp del]

definition str_int :: "int \<Rightarrow> string" where
  "str_int i = (if i < 0 then ''-'' @ str_nat (nat (- i)) else str_nat (nat i))"

text \<open>\<open>if not os.path.exists(d): os.makedirs(d)\<close>, for each directory of a list in turn.\<close>

fun ensure_dirs :: "world \<Rightarrow> string list \<Rightarrow> (error + unit) \<times> world" where
  "ensure_dirs w [] = (Inr (), w)"
| "ensure_dirs w (d # ds) =
     (case (if \<not> path_exists w d then makedirs w d else (Inr (), w)) of
        (Inl e, w') \<Rightarrow> (Inl e, w')
      | (Inr u, w') \<Rightarrow> ensure_dirs w' ds)"

text \<open>The \<open>if gen_notebooks:\<close> block: both notebooks are written into the lab directory.\<close>

definition generate_notebooks :: "world \<Rightarrow> args \<Rightarrow> string \<Rightarrow> (error + unit) \<times> world" where
  "generate_notebooks w a lab_dir =
     (let students = zip (list_of (arg_student_names a)) (list_of (arg_student_ids a));
          prelab_path = path_join lab_dir (''prelab'' @ str_int (arg_lab_number a) @ ''.ipynb'');
          report_path = path_join lab_dir (''Lab Report '' @ str_int (arg_lab_number a) @ ''.ipynb'')
      in (case write_file w prelab_path
                 (PrelabNotebook (arg_lab_number a) (arg_num_exercises a) students) of
            (Inl e, w1) \<Rightarrow> (Inl e, w1)
          | (Inr u, w1) \<Rightarrow>
              (case (if path_exists w1 report_path then os_remove w1 report_path else (Inr (), w1)) of
                 (Inl e, w2) \<Rightarrow> (Inl e, w2)
               | (Inr u, w2) \<Rightarrow>
                   write_file w2 report_path
                     (LabReportNotebook (arg_lab_number a) (arg_num_exercises a) students))))"

text \<open>The \<open>else:\<close> branch: the lab directory, its subdirectories, the copy and the notebooks.\<close>

definition setup_lab_dir :: "world \<Rightarrow> args \<Rightarrow> (error + unit) \<times> world" where
  "setup_lab_dir w a =
     (let lab_name = ''Lab '' @ str_int (arg_lab_number a);
          lab_dir = path_join (getcwd w) lab_name;
          dirs = lab_dir # map (path_join lab_dir) [''assets'', ''prelab'', ''scope'']
                 @ (if arg_num_exercises a > 0
                    then map (\<lambda>i. path_join (path_join lab_dir ''prelab'') (''exp'' @ str_int i))
                           [1 .. arg_num_exercises a]
                    else [])
      in (case ensure_dirs w dirs of
            (Inl e, w1) \<Rightarrow> (Inl e, w1)
          | (Inr u, w1) \<Rightarrow>
              (case (if \<not> arg_prelab_only a
                     then (case OscilloscopeDataCopier_init w1 (arg_drive_name a) of
                             Inl e \<Rightarrow> (Inl e, w1)
                           | Inr cp \<Rightarrow>
                               copy_scope_data cp w1 (path_join lab_dir ''scope'')
                                 False True True (arg_verbose a) False)
                     else (Inr (), w1)) of
                 (Inl e, w2) \<Rightarrow> (Inl e, w2)
               | (Inr u, w2) \<Rightarrow>
                   if arg_generate_notebooks a then generate_notebooks w2 a lab_dir
                   else (Inr (), w2))))"

text \<open>
  The script after \<open>parse_args\<close>.  \<open>parser.error\<close> exits with status 2.  In the copy-only
  branch the destination handed to \<open>copy_scope_data\<close> is \<open>copy_only\<close>, the flag itself.
\<close>

definition main :: "world \<Rightarrow> args \<Rightarrow> (error + unit) \<times> world" where
  "main w a =
     (if arg_generate_notebooks a \<and> (falsy (arg_student_names a) \<or> falsy (arg_student_ids a))
      then (Inl (SystemExit 2), w)
      else if arg_generate_notebooks a
              \<and> length (list_of (arg_student_names a)) \<noteq> length (list_of (arg_student_ids a))
      then (Inl (SystemExit 2), w)
      else if arg_prelab_only a \<and> arg_c a then (Inl (SystemExit 2), w)
      else if arg_c a
      then (case OscilloscopeDataCopier_init w (arg_drive_name a) of
              Inl e \<Rightarrow> (Inl e, w)
            | Inr cp \<Rightarrow> copy_scope_data_bool cp w (arg_c a) False True True (arg_verbose a) False)
      else setup_lab_dir w a)"

section \<open>Notions used in the statements\<close>

text \<open>The head that \<open>os.path.split\<close> returns for a directory joined with a name.\<close>

definition head_of :: "string \<Rightarrow> string" where
  "head_of d = (if filter (\<lambda>c. c \<noteq> CHR ''/'') d \<noteq> [] then rstrip_slash d else d)"

text \<open>Two states hold the same files with the same contents; directories may differ.\<close>

definition same_files :: "world \<Rightarrow> world \<Rightarrow> bool" where
  "same_files w w' = (\<forall>k c. (lookup w' k = Some (File c)) = (lookup w k = Some (File c)))"

text \<open>
  Two states agree outside a directory \<open>t\<close>: the entries of the table that are not strictly
  below \<open>t\<close> are the same, in the same order, and the working directory is the same.
\<close>

definition frame :: "string list \<Rightarrow> world \<Rightarrow> world \<Rightarrow> bool" where
  "frame t w w' =
     (cwd w' = cwd w
      \<and> filter (\<lambda>e. \<not> strict_prefix t (fst e)) (files w')
          = filter (\<lambda>e. \<not> strict_prefix t (fst e)) (files w))"

text \<open>The path \<open>shutil.copy\<close> writes to.\<close>

definition copy_dst :: "world \<Rightarrow> string \<Rightarrow> string \<Rightarrow> string" where
  "copy_dst w src dst = (if isdir w dst then path_join dst (basename src) else dst)"

text \<open>The kind of a path: absent, a directory, or a file.\<close>

definition kind :: "node option \<Rightarrow> nat" where
  "kind x = (case x of None \<Rightarrow> 0 | Some Dir \<Rightarrow> 1 | Some (File c) \<Rightarrow> 2)"

text \<open>Every path present in \<open>s\<close> is present in \<open>w\<close> with the same kind.\<close>

definition grows :: "world \<Rightarrow> world \<Rightarrow> bool" where
  "grows s w = (\<forall>k. lookup s k = None \<or> kind (lookup w k) = kind (lookup s k))"

text \<open>
  The relation between the state \<open>s\<close> of a first run and the state \<open>s'\<close> of a second run
  that started from the first run's result \<open>w\<close>, at the same point of the program: they
  agree outside the destination \<open>t\<close>; each path of \<open>s'\<close> holds what it holds in \<open>s\<close> or what
  it holds in \<open>w\<close>; and \<open>s'\<close> has the paths of \<open>w\<close>, with the same kinds, in the same order.
\<close>

definition rerun :: "string list \<Rightarrow> world \<Rightarrow> world \<Rightarrow> world \<Rightarrow> bool" where
  "rerun t w s s' =
     (frame t s s'
      \<and> (\<forall>k. lookup s' k = lookup s k \<or> lookup s' k = lookup w k)
      \<and> (\<forall>k. kind (lookup s' k) = kind (lookup w k))
      \<and> map fst (files s') = map fst (files w))"

text \<open>The name and the path under which the JPG of an exercise part is saved.\<close>

definition jpg_name :: "string \<Rightarrow> string" where
  "jpg_name exercise_part = lower (basename exercise_part) @ ''.jpg''"

definition jpg_path :: "string \<Rightarrow> string \<Rightarrow> string" where
  "jpg_path destination exercise_part =
     path_join (path_join destination ''jpgs'') (jpg_name exercise_part)"

text \<open>
  In the state \<open>w'\<close> the path \<open>k\<close> holds the content that the first \<open>*.JPG\<close> match of the
  exercise part \<open>q\<close> had in the state \<open>w\<close>.
\<close>

definition first_jpg_at :: "world \<Rightarrow> string \<Rightarrow> world \<Rightarrow> string list \<Rightarrow> bool" where
  "first_jpg_at w q w' k =
     (\<exists>x xs c. glob w (path_join q ''*.JPG'') = x # xs
        \<and> lookup w (resolve w x) = Some (File c)
        \<and> lookup w' k = Some (File c))"


text \<open>
  The content \<open>c\<close> is what some file with a name matching \<open>*.CSV\<close> holds in the state \<open>w\<close>.
\<close>

definition csv_content :: "world \<Rightarrow> content \<Rightarrow> bool" where
  "csv_content w c =
     (\<exists>k. k \<noteq> [] \<and> fnmatch (last k) ''*.CSV'' \<and> lookup w k = Some (File c))"

text \<open>
  Every file of the state \<open>s\<close> with a name matching \<open>*.CSV\<close> holds what some such file held
  in the state \<open>w\<close>.
\<close>

definition csv_kept :: "world \<Rightarrow> world \<Rightarrow> bool" where
  "csv_kept w s =
     (\<forall>k c. k \<noteq> [] \<and> fnmatch (last k) ''*.CSV'' \<and> lookup s k = Some (File c)
        \<longrightarrow> csv_content w c)"
section \<open>Example drives\<close>

text \<open>
  A drive as the oscilloscope leaves it, with one folder renamed to \<open>E1P1\<close>, mounted under
  \<open>/Volumes/ECE65-DATA\<close>, and an empty directory \<open>/out\<close> to copy into.
\<close>

definition scope_drive :: world where
  "scope_drive =
     \<lparr>files =
        [([''Volumes''], Dir),
         ([''Volumes'', ''ECE65-DATA''], Dir),
         ([''Volumes'', ''ECE65-DATA'', ''E1P1''], Dir),
         ([''Volumes'', ''ECE65-DATA'', ''E1P1'', ''F0000CH1.CSV''], File (Data ''ch1'')),
         ([''Volumes'', ''ECE65-DATA'', ''E1P1'', ''F0000CH2.CSV''], File (Data ''ch2'')),
         ([''Volumes'', ''ECE65-DATA'', ''E1P1'', ''F0000TEK.JPG''], File (Data ''screen'')),
         ([''Volumes'', ''ECE65-DATA'', ''E1P1'', ''F0000TEK.SET''], File (Data ''settings'')),
         ([''out''], Dir)],
      cwd = [], open_fds = [0, 1, 2]\<rparr>"

definition scope_copier :: copier where
  "scope_copier =
     \<lparr>drive_location = ''/Volumes/ECE65-DATA'', exercise_parts = [''/Volumes/ECE65-DATA/E1P1'']\<rparr>"

text \<open>A drive with a folder \<open>EXPORT\<close>, whose name is not of the form \<open>E<N>P<M>\<close>.\<close>

definition export_drive :: world where
  "export_drive =
     \<lparr>files =
        [([''Volumes''], Dir),
         ([''Volumes'', ''ECE65-DATA''], Dir),
         ([''Volumes'', ''ECE65-DATA'', ''EXPORT''], Dir),
         ([''Volumes'', ''ECE65-DATA'', ''EXPORT'', ''F0000CH1.CSV''], File (Data ''ch1'')),
         ([''Volumes'', ''ECE65-DATA'', ''EXPORT'', ''F0000TEK.JPG''], File (Data ''screen'')),
         ([''out''], Dir)],
      cwd = [], open_fds = [0, 1, 2]\<rparr>"

text \<open>A drive whose folder \<open>E1P1\<close> holds the CSV files but no JPG.\<close>

definition csv_only_drive :: world where
  "csv_only_drive =
     \<lparr>files =
        [([''Volumes''], Dir),
         ([''Volumes'', ''ECE65-DATA''], Dir),
         ([''Volumes'', ''ECE65-DATA'', ''E1P1''], Dir),
         ([''Volumes'', ''ECE65-DATA'', ''E1P1'', ''F0000CH1.CSV''], File (Data ''ch1'')),
         ([''Volumes'', ''ECE65-DATA'', ''E1P1'', ''F0000CH2.CSV''], File (Data ''ch2'')),
         ([''out''], Dir)],
      cwd = [], open_fds = [0, 1, 2]\<rparr>"

text \<open>The command line \<open>setup_lab.py 1 -c\<close>, and \<open>setup_lab.py 1 -c -p\<close>.\<close>

definition copy_only_args :: args where
  "copy_only_args =
     \<lparr>arg_lab_number = 1, arg_num_exercises = 0, arg_generate_notebooks = False,
      arg_verbose = False, arg_drive_name = ''ECE65-DATA'', arg_c = True,
      arg_prelab_only = False, arg_student_names = None, arg_student_ids = None\<rparr>"

text \<open>
  A drive with two exercise parts, and a drive that also holds an earlier, renamed copy of
  a channel inside the part's folder.
\<close>

definition two_part_drive :: world where
  "two_part_drive =
     \<lparr>files =
        [([''Volumes''], Dir),
         ([''Volumes'', ''ECE65-DATA''], Dir),
         ([''Volumes'', ''ECE65-DATA'', ''E1P1''], Dir),
         ([''Volumes'', ''ECE65-DATA'', ''E1P1'', ''F0000CH1.CSV''], File (Data ''part one'')),
         ([''Volumes'', ''ECE65-DATA'', ''E2P1''], Dir),
         ([''Volumes'', ''ECE65-DATA'', ''E2P1'', ''F0000CH1.CSV''], File (Data ''part two''))],
      cwd = [], open_fds = [0, 1, 2]\<rparr>"

definition two_part_copier :: copier where
  "two_part_copier =
     \<lparr>drive_location = ''/Volumes/ECE65-DATA'',
      exercise_parts = [''/Volumes/ECE65-DATA/E1P1'', ''/Volumes/ECE65-DATA/E2P1'']\<rparr>"

definition recaptured_drive :: world where
  "recaptured_drive =
     \<lparr>files =
        [([''Volumes''], Dir),
         ([''Volumes'', ''ECE65-DATA''], Dir),
         ([''Volumes'', ''ECE65-DATA'', ''E1P1''], Dir),
         ([''Volumes'', ''ECE65-DATA'', ''E1P1'', ''F0000CH1.CSV''], File (Data ''new capture'')),
         ([''Volumes'', ''ECE65-DATA'', ''E1P1'', ''F0000TEK.JPG''], File (Data ''screen'')),
         ([''Volumes'', ''ECE65-DATA'', ''E1P1'', ''e1p1.ch1.csv''], File (Data ''old capture''))],
      cwd = [], open_fds = [0, 1, 2]\<rparr>"

text \<open>A drive whose folder \<open>E1P2\<close> holds two screen captures.\<close>

definition two_jpg_drive :: world where
  "two_jpg_drive =
     \<lparr>files =
        [([''Volumes''], Dir),
         ([''Volumes'', ''ECE65-DATA''], Dir),
         ([''Volumes'', ''ECE65-DATA'', ''E1P2''], Dir),
         ([''Volumes'', ''ECE65-DATA'', ''E1P2'', ''F0000CH1.CSV''], File (Data ''ch1'')),
         ([''Volumes'', ''ECE65-DATA'', ''E1P2'', ''F0000TEK.JPG''], File (Data ''first screen'')),
         ([''Volumes'', ''ECE65-DATA'', ''E1P2'', ''F0001TEK.JPG''], File (Data ''second screen'')),
         ([''out''], Dir)],
      cwd = [], open_fds = [0, 1, 2]\<rparr>"

definition two_jpg_copier :: copier where
  "two_jpg_copier =
     \<lparr>drive_location = ''/Volumes/ECE65-DATA'', exercise_parts = [''/Volumes/ECE65-DATA/E1P2'']\<rparr>"


text \<open>
  A drive with two exercise parts whose names differ only in the case of a letter, each
  with a screen capture.
\<close>

definition same_name_drive :: world where
  "same_name_drive =
     \<lparr>files =
        [([''Volumes''], Dir),
         ([''Volumes'', ''ECE65-DATA''], Dir),
         ([''Volumes'', ''ECE65-DATA'', ''EaP1''], Dir),
         ([''Volumes'', ''ECE65-DATA'', ''EaP1'', ''F0000TEK.JPG''], File (Data ''screen of EaP1'')),
         ([''Volumes'', ''ECE65-DATA'', ''EAP1''], Dir),
         ([''Volumes'', ''ECE65-DATA'', ''EAP1'', ''F0000TEK.JPG''], File (Data ''screen of EAP1'')),
         ([''out''], Dir)],
      cwd = [], open_fds = [0, 1, 2]\<rparr>"

definition same_name_copier :: copier where
  "same_name_copier =
     \<lparr>drive_location = ''/Volumes/ECE65-DATA'',
      exercise_parts = [''/Volumes/ECE65-DATA/EaP1'', ''/Volumes/ECE65-DATA/EAP1'']\<rparr>"

text \<open>
  The drive of the first example with a destination in which a directory already stands
  at \<open>jpgs/e1p1.jpg\<close>.
\<close>

definition occupied_drive :: world where
  "occupied_drive =
     \<lparr>files =
        [([''Volumes''], Dir),
         ([''Volumes'', ''ECE65-DATA''], Dir),
         ([''Volumes'', ''ECE65-DATA'', ''E1P1''], Dir),
         ([''Volumes'', ''ECE65-DATA'', ''E1P1'', ''F0000CH1.CSV''], File (Data ''ch1'')),
         ([''Volumes'', ''ECE65-DATA'', ''E1P1'', ''F0000TEK.JPG''], File (Data ''screen'')),
         ([''out''], Dir),
         ([''out'', ''jpgs''], Dir),
         ([''out'', ''jpgs'', ''e1p1.jpg''], Dir)],
      cwd = [], open_fds = [0, 1, 2]\<rparr>"

text \<open>A drive whose first exercise part has no screen capture and whose second has one.\<close>

definition late_jpg_drive :: world where
  "late_jpg_drive =
     \<lparr>files =
        [([''Volumes''], Dir),
         ([''Volumes'', ''ECE65-DATA''], Dir),
         ([''Volumes'', ''ECE65-DATA'', ''E1P1''], Dir),
         ([''Volumes'', ''ECE65-DATA'', ''E1P1'', ''F0000CH1.CSV''], File (Data ''part one'')),
         ([''Volumes'', ''ECE65-DATA'', ''E2P1''], Dir),
         ([''Volumes'', ''ECE65-DATA'', ''E2P1'', ''F0000TEK.JPG''], File (Data ''screen of E2P1'')),
         ([''out''], Dir)],
      cwd = [], open_fds = [0, 1, 2]\<rparr>"
section \<open>Strings and paths\<close>

lemma split_on_nonempty [simp]: "split_on c xs \<noteq> []"
  by (induction xs) (auto split: list.splits)

lemma split_on_no_sep: "c \<notin> set n \<Longrightarrow> split_on c n = [n]"
  by (induction n) auto

lemma split_on_append: "split_on c (xs @ c # ys) = split_on c xs @ split_on c ys"
  by (induction xs) (auto split: list.splits)

lemma split_on_snoc_name:
  "c \<notin> set n \<Longrightarrow> split_on c (xs @ c # n) = split_on c xs @ [n]"
  by (simp add: split_on_append split_on_no_sep)

lemma basename_no_slash: "CHR ''/'' \<notin> set n \<Longrightarrow> basename n = n"
  unfolding basename_def by (induction n rule: rev_induct) auto

lemma basename_append_name:
  "CHR ''/'' \<notin> set n \<Longrightarrow> basename (xs @ CHR ''/'' # n) = n"
proof -
  assume "CHR ''/'' \<notin> set n"
  then have "takeWhile (\<lambda>c. c \<noteq> CHR ''/'') (rev n @ CHR ''/'' # rev xs) = rev n"
    by (subst takeWhile_append2) auto
  then show ?thesis by (simp add: basename_def)
qed

lemma basename_no_slash_in [simp]: "CHR ''/'' \<notin> set (basename p)"
  unfolding basename_def by (auto dest: set_takeWhileD)

lemma path_decomp:
  "CHR ''/'' \<notin> set p \<or> (\<exists>xs n. p = xs @ CHR ''/'' # n \<and> CHR ''/'' \<notin> set n)"
  using split_list_last [of "CHR ''/''" p] by auto

lemma last_split_on: "last (split_on CHR ''/'' p) = basename p"
  using path_decomp [of p]
  by (auto simp: split_on_no_sep basename_no_slash split_on_snoc_name basename_append_name)

lemma of_char_lower_char:
  "(of_char (lower_char c) :: nat) =
     (if (65 \<le> (of_char c :: nat) \<and> (of_char c :: nat) \<le> 90)
         \<or> (192 \<le> (of_char c :: nat) \<and> (of_char c :: nat) \<le> 222 \<and> (of_char c :: nat) \<noteq> 215)
      then of_char c + 32 else of_char c)"
  by (auto simp: lower_char_def Let_def)

lemma lower_char_eq_iff: "(lower_char c = d) = ((of_char (lower_char c) :: nat) = of_char d)"
  by auto

lemma lower_char_slash [simp]: "(lower_char c = CHR ''/'') = (c = CHR ''/'')"
proof -
  have "((of_char c :: nat) = 47) = (c = CHR ''/'')"
    using of_char_eq_iff [of c "CHR ''/''", where ?'a = nat] by simp
  then show ?thesis
    by (subst lower_char_eq_iff) (auto simp: of_char_lower_char)
qed

lemma lower_append [simp]: "lower (a @ b) = lower a @ lower b"
  by (simp add: lower_def)

lemma lower_Nil_iff [simp]: "(lower s = []) = (s = [])"
  by (simp add: lower_def)

lemma lower_char_slash' [simp]: "(CHR ''/'' = lower_char c) = (c = CHR ''/'')"
  using lower_char_slash [of c] by (metis)

lemma slash_in_lower [simp]: "(CHR ''/'' \<in> set (lower s)) = (CHR ''/'' \<in> set s)"
  by (induction s) (auto simp: lower_def)

lemma lower_Nil [simp]: "lower [] = []"
  by (simp add: lower_def)

lemma lower_Cons [simp]: "lower (c # s) = lower_char c # lower s"
  by (simp add: lower_def)

lemma lower_char_literals [simp]:
  "lower_char CHR ''.'' = CHR ''.''" "lower_char CHR ''j'' = CHR ''j''"
  "lower_char CHR ''p'' = CHR ''p''" "lower_char CHR ''g'' = CHR ''g''"
  "lower_char CHR ''E'' = CHR ''e''" "lower_char CHR ''P'' = CHR ''p''"
  "lower_char CHR ''C'' = CHR ''c''" "lower_char CHR ''H'' = CHR ''h''"
  "lower_char CHR ''S'' = CHR ''s''" "lower_char CHR ''V'' = CHR ''v''"
  by code_simp+


subsection \<open>Joining and resolving\<close>

lemma plain_simps:
  "plain n \<Longrightarrow> n \<noteq> []" "plain n \<Longrightarrow> CHR ''/'' \<notin> set n"
  "plain n \<Longrightarrow> n \<noteq> ''.''" "plain n \<Longrightarrow> n \<noteq> ''..''"
  by (auto simp: plain_def)

lemma plain_hd: "plain n \<Longrightarrow> hd n \<noteq> CHR ''/''"
  by (cases n) (auto simp: plain_def)

lemma path_join_plain:
  "plain n \<Longrightarrow> path_join d n =
     (if d = [] then n else if last d = CHR ''/'' then d @ n else d @ CHR ''/'' # n)"
  by (auto simp: path_join_def plain_hd dest: plain_simps)

lemma step_plain: "plain n \<Longrightarrow> step acc n = acc @ [n]"
  by (auto simp: step_def plain_def)

lemma step_empty [simp]: "step acc [] = acc"
  by (simp add: step_def)

lemma resolve_cwd: "cwd w' = cwd w \<Longrightarrow> resolve w' p = resolve w p"
  by (simp add: resolve_def)

lemma is_abs_append [simp]: "d \<noteq> [] \<Longrightarrow> is_abs (d @ x) = is_abs d"
  by (cases d) (auto simp: is_abs_def)

lemma resolve_slash_name:
  assumes "plain n"
  shows "resolve w (d @ CHR ''/'' # n) = resolve w (d @ ''/'') @ [n]"
proof -
  have "split_on CHR ''/'' (d @ CHR ''/'' # n) = split_on CHR ''/'' d @ [n]"
    using assms by (simp add: split_on_snoc_name plain_def)
  moreover have "split_on CHR ''/'' (d @ ''/'') = split_on CHR ''/'' d @ [[]]"
    using split_on_append [of "CHR ''/''" d "[]"] by simp
  moreover have "is_abs (d @ CHR ''/'' # n) = is_abs (d @ ''/'')"
    by (cases d) (auto simp: is_abs_def)
  ultimately show ?thesis
    using assms by (simp add: resolve_def step_plain)
qed

lemma resolve_trailing_slash: "d \<noteq> [] \<Longrightarrow> resolve w (d @ ''/'') = resolve w d"
  using split_on_append [of "CHR ''/''" d "[]"] by (simp add: resolve_def)

lemma resolve_name: "plain n \<Longrightarrow> resolve w n = cwd w @ [n]"
  by (cases n) (auto simp: resolve_def split_on_no_sep step_plain is_abs_def plain_def)

lemma resolve_empty: "resolve w [] = cwd w"
  by (simp add: resolve_def is_abs_def)

lemma resolve_join:
  assumes "plain n"
  shows "resolve w (path_join d n) = resolve w d @ [n]"
proof (cases "d = []")
  case True
  then show ?thesis using assms by (simp add: path_join_plain resolve_name resolve_empty)
next
  case False
  show ?thesis
  proof (cases "last d = CHR ''/''")
    case True
    with False obtain d' where d: "d = d' @ ''/''"
      by (metis append_butlast_last_id)
    have "resolve w (d' @ CHR ''/'' # n) = resolve w (d' @ ''/'') @ [n]"
      using assms by (rule resolve_slash_name)
    then show ?thesis using assms False True d by (simp add: path_join_plain)
  next
    case nl: False
    have "resolve w (d @ CHR ''/'' # n) = resolve w d @ [n]"
      using assms False by (simp add: resolve_slash_name resolve_trailing_slash)
    then show ?thesis using assms False nl by (simp add: path_join_plain)
  qed
qed

lemma path_join_nonempty: "plain n \<Longrightarrow> path_join d n \<noteq> []"
  by (auto simp: path_join_plain dest: plain_simps)

lemma basename_join: "plain n \<Longrightarrow> basename (path_join d n) = n"
proof -
  assume p: "plain n"
  then have ns: "CHR ''/'' \<notin> set n" by (simp add: plain_def)
  show ?thesis
  proof (cases "d = []")
    case True
    then show ?thesis using p ns by (simp add: path_join_plain basename_no_slash)
  next
    case False
    show ?thesis
    proof (cases "last d = CHR ''/''")
      case True
      with False obtain d' where d: "d = d' @ ''/''"
        by (metis append_butlast_last_id)
      then show ?thesis using p ns False True basename_append_name [of n d']
        by (simp add: path_join_plain)
    next
      case nl: False
      then show ?thesis using p ns False basename_append_name [of n d]
        by (simp add: path_join_plain)
    qed
  qed
qed

subsection \<open>glob on a joined pattern\<close>

lemma rstrip_slash_decomp: "\<exists>k. d = rstrip_slash d @ replicate k CHR ''/''"
proof -
  let ?t = "takeWhile (\<lambda>c. c = CHR ''/'') (rev d)"
  have "rev d = ?t @ dropWhile (\<lambda>c. c = CHR ''/'') (rev d)" by simp
  then have "d = rstrip_slash d @ rev ?t"
    unfolding rstrip_slash_def by (metis rev_append rev_rev_ident)
  moreover have "replicate (length (rev ?t)) CHR ''/'' = rev ?t"
    by (rule replicate_length_same) (auto dest: set_takeWhileD)
  ultimately show ?thesis by metis
qed

lemma resolve_trailing_slashes: "d \<noteq> [] \<Longrightarrow> resolve w (d @ replicate k CHR ''/'') = resolve w d"
proof (induction k)
  case 0
  then show ?case by simp
next
  case (Suc k)
  have "d @ replicate (Suc k) CHR ''/'' = (d @ replicate k CHR ''/'') @ ''/''"
    by (simp add: replicate_append_same)
  then show ?case using Suc resolve_trailing_slash [of "d @ replicate k CHR ''/''" w] by simp
qed

lemma resolve_rstrip: "rstrip_slash d \<noteq> [] \<Longrightarrow> resolve w (rstrip_slash d) = resolve w d"
  using rstrip_slash_decomp [of d] resolve_trailing_slashes [of "rstrip_slash d" w] by metis

lemma rstrip_slash_snoc [simp]: "rstrip_slash (d @ ''/'') = rstrip_slash d"
  by (simp add: rstrip_slash_def)

lemma rstrip_slash_id: "d \<noteq> [] \<Longrightarrow> last d \<noteq> CHR ''/'' \<Longrightarrow> rstrip_slash d = d"
  by (cases d rule: rev_cases) (auto simp: rstrip_slash_def)

lemma rstrip_slash_Nil_iff: "(rstrip_slash d = []) = (filter (\<lambda>c. c \<noteq> CHR ''/'') d = [])"
  by (auto simp: rstrip_slash_def dropWhile_eq_Nil_conv filter_empty_conv)

lemma head_of_nonempty: "d \<noteq> [] \<Longrightarrow> head_of d \<noteq> []"
  by (auto simp: head_of_def rstrip_slash_Nil_iff)

lemma resolve_head_of: "d \<noteq> [] \<Longrightarrow> resolve w (head_of d) = resolve w d"
  by (auto simp: head_of_def resolve_rstrip rstrip_slash_Nil_iff)

lemma head_of_id: "d \<noteq> [] \<Longrightarrow> last d \<noteq> CHR ''/'' \<Longrightarrow> head_of d = d"
  by (auto simp: head_of_def rstrip_slash_id)



lemma os_path_split_eq:
  assumes "basename p = n" "take (length p - length n) p = h"
  shows "os_path_split p =
    (if h \<noteq> [] \<and> filter (\<lambda>c. c \<noteq> CHR ''/'') h \<noteq> [] then rstrip_slash h else h, n)"
  by (simp only: os_path_split_def Let_def assms)

lemma os_path_split_join:
  assumes "d \<noteq> []" "CHR ''/'' \<notin> set n" "n \<noteq> []"
  shows "os_path_split (path_join d n) = (head_of d, n)"
proof (cases "last d = CHR ''/''")
  case True
  have hd: "hd n \<noteq> CHR ''/''" using assms(2,3) by (cases n) auto
  from True assms(1) obtain d' where d: "d = d' @ ''/''" by (metis append_butlast_last_id)
  have j: "path_join d n = d @ n" using True hd by (simp add: path_join_def)
  have b: "basename (d @ n) = n" unfolding d using basename_append_name [OF assms(2), of d'] by simp
  have t: "take (length (d @ n) - length n) (d @ n) = d" by simp
  show ?thesis
    unfolding j os_path_split_eq [OF b t] head_of_def using assms(1) by auto
next
  case False
  have hd: "hd n \<noteq> CHR ''/''" using assms(2,3) by (cases n) auto
  have j: "path_join d n = d @ CHR ''/'' # n" using False assms(1) hd by (simp add: path_join_def)
  have b: "basename (d @ CHR ''/'' # n) = n" by (rule basename_append_name [OF assms(2)])
  have t: "take (length (d @ CHR ''/'' # n) - length n) (d @ CHR ''/'' # n) = d @ ''/''" by simp
  have ne: "filter (\<lambda>c. c \<noteq> CHR ''/'') d \<noteq> []"
  proof -
    have "last d \<in> set d" using assms(1) by simp
    with False show ?thesis by (auto simp: filter_empty_conv)
  qed
  have r: "rstrip_slash (d @ ''/'') = rstrip_slash d" by simp
  show ?thesis
    unfolding j os_path_split_eq [OF b t] head_of_def r using ne by simp
qed

lemma has_magic_append [simp]: "has_magic (a @ b) = (has_magic a \<or> has_magic b)"
  by (simp add: has_magic_def)

lemma has_magic_path_join: "\<not> is_abs n \<Longrightarrow> has_magic n \<Longrightarrow> has_magic (path_join d n)"
  by (auto simp: path_join_def is_abs_def has_magic_def)

lemma glob_join:
  assumes "d \<noteq> []" "CHR ''/'' \<notin> set pat" "pat \<noteq> []" "has_magic pat"
  shows "glob w (path_join d pat) = map (path_join (head_of d)) (glob1 w (head_of d) pat)"
proof -
  have "\<not> is_abs pat" using assms by (cases pat) (auto simp: is_abs_def)
  then have "has_magic (path_join d pat)" using assms by (simp add: has_magic_path_join)
  then show ?thesis
    using assms by (simp add: glob_def os_path_split_join head_of_nonempty)
qed

lemma glob1_elem:
  "n \<in> set (glob1 w d pat) \<Longrightarrow> plain n \<and> fnmatch n pat"
  by (auto simp: glob1_def listdir_def children_def split: if_splits)

lemma glob_join_elem:
  assumes "d \<noteq> []" "CHR ''/'' \<notin> set pat" "pat \<noteq> []" "has_magic pat"
    and "x \<in> set (glob w (path_join d pat))"
  shows "\<exists>n. plain n \<and> fnmatch n pat \<and> x = path_join (head_of d) n"
  using assms by (auto simp: glob_join dest: glob1_elem)

subsection \<open>What the constructor builds\<close>

lemma drive_location_nonempty: "path_join ''/Volumes'' dname \<noteq> []"
  by (auto simp: path_join_def)

lemma drive_location_abs: "is_abs (path_join ''/Volumes'' dname)"
  by (cases dname) (auto simp: path_join_def is_abs_def)

lemma init_parts:
  assumes "OscilloscopeDataCopier_init w0 dname = Inr self"
    and "p \<in> set (exercise_parts self)"
  shows "plain (basename p) \<and> fnmatch (basename p) ''E*P*''
         \<and> resolve w p = resolve w (drive_location self) @ [basename p]"
proof -
  let ?dl = "path_join ''/Volumes'' dname"
  from assms(1) have dl: "drive_location self = ?dl"
    and parts: "exercise_parts self = glob w0 (path_join ?dl ''E*P*'')"
    by (auto simp: OscilloscopeDataCopier_init_def Let_def split: if_splits)
  have "has_magic ''E*P*''" by code_simp
  with assms(2) parts obtain n where n: "plain n" "fnmatch n ''E*P*''" "p = path_join (head_of ?dl) n"
    using glob_join_elem [of ?dl "''E*P*''" p w0] drive_location_nonempty [of dname] by auto
  have "basename p = n" using n basename_join by simp
  moreover have "resolve w p = resolve w ?dl @ [n]"
    using n resolve_join [of n w "head_of ?dl"] resolve_head_of [of ?dl w]
      drive_location_nonempty [of dname] by simp
  ultimately show ?thesis using n dl by simp
qed

lemma index_m2_snoc2: "index_m2 (xs @ [a, b]) = Inr a"
  by (simp add: index_m2_def nth_append)

lemma split_dir_base:
  assumes "CHR ''/'' \<notin> set dir" "CHR ''/'' \<notin> set base"
  shows "split_on CHR ''/'' (pre @ CHR ''/'' # dir @ CHR ''/'' # base) = split_on CHR ''/'' pre @ [dir, base]"
proof -
  have "split_on CHR ''/'' ((pre @ CHR ''/'' # dir) @ CHR ''/'' # base)
      = split_on CHR ''/'' (pre @ CHR ''/'' # dir) @ [base]"
    using assms(2) by (rule split_on_snoc_name)
  also have "split_on CHR ''/'' (pre @ CHR ''/'' # dir) = split_on CHR ''/'' pre @ [dir]"
    using assms(1) by (rule split_on_snoc_name)
  finally show ?thesis by simp
qed

lemma basename_dir_base:
  assumes "CHR ''/'' \<notin> set base"
  shows "basename (pre @ CHR ''/'' # dir @ CHR ''/'' # base) = base"
  using basename_append_name [OF assms, of "pre @ CHR ''/'' # dir"] by simp

lemma CSVFile_init_rename:
  assumes "CHR ''/'' \<notin> set dir" "CHR ''/'' \<notin> set base"
    and "path_exists w (pre @ ''/'' @ dir @ ''/'' @ base)"
  shows "CSVFile_init w (pre @ ''/'' @ dir @ ''/'' @ base) True
     = Inr \<lparr>location = pre @ ''/'' @ dir @ ''/'' @ base,
            name = lower dir @ ''.'' @ lower (last7 base)\<rparr>"
  using assms(3)
  by (simp add: CSVFile_init_def File_init_def split_dir_base [OF assms(1,2)]
      basename_dir_base [OF assms(2)] index_m2_snoc2)

lemma last7_channel: "last7 (''F0000CH'' @ [o'] @ ''.CSV'') = ''CH'' @ [o'] @ ''.CSV''"
  by (simp add: last7_def)


section \<open>The file system and the loops\<close>

subsection \<open>The table\<close>

lemma lookup_put: "lookup (put w k v) k' = (if k' = k \<and> k \<noteq> [] then Some v else lookup w k')"
  by (auto simp: lookup_def put_def update_conv')

lemma cwd_put [simp]: "cwd (put w k v) = cwd w"
  by (simp add: put_def)

lemma resolve_put [simp]: "resolve (put w k v) p = resolve w p"
  by (simp add: resolve_def)

lemma lookup_None_iff: "k \<noteq> [] \<Longrightarrow> (lookup w k = None) = (k \<notin> fst ` set (files w))"
  by (simp add: lookup_def map_of_eq_None_iff)

lemma update_fresh: "k \<notin> fst ` set al \<Longrightarrow> AList.update k v al = al @ [(k, v)]"
  by (induction al) auto

lemma files_put_fresh:
  "lookup w k = None \<Longrightarrow> files (put w k v) = files w @ [(k, v)]"
proof -
  assume a: "lookup w k = None"
  then have "k \<noteq> []" by (auto simp: lookup_def)
  with a show ?thesis by (simp add: put_def update_fresh lookup_None_iff)
qed

lemma mkdir_key_cases:
  assumes "mkdir_key w k = (r, w')"
  shows "(r = Inr () \<and> w' = put w k Dir \<and> lookup w k = None \<and> lookup w (butlast k) = Some Dir)
         \<or> ((\<exists>e. r = Inl e) \<and> w' = w)"
  using assms by (auto simp: mkdir_key_def split: if_splits option.splits node.splits)

lemma makedirs_below:
  assumes "path_exists w d" "plain n"
  shows "makedirs w (path_join d n) = mkdir_key w (resolve w d @ [n])"
proof -
  have "lookup w (butlast (resolve w d @ [n])) \<noteq> None"
    using assms(1) by (simp add: path_exists_def)
  then have "makedirs_key w (resolve w d @ [n]) = mkdir_key w (resolve w d @ [n])"
    by (subst makedirs_key.simps) auto
  then show ?thesis
    using assms(2) by (simp add: makedirs_def resolve_join path_join_nonempty)
qed

lemma rmdir_cases:
  assumes "rmdir w p = (r, w')"
  shows "(r = Inr () \<and> p \<noteq> [] \<and> lookup w (resolve w p) = Some Dir \<and> resolve w p \<noteq> []
            \<and> w' = w\<lparr>files := filter (\<lambda>e. fst e \<noteq> resolve w p) (files w)\<rparr>)
         \<or> ((\<exists>e. r = Inl e) \<and> w' = w)"
  using assms
  by (auto simp: rmdir_def Let_def split: if_splits option.splits node.splits)

lemma rmdir_after_mkdir:
  assumes "lookup w k = None" "resolve w p = k" "rmdir (put w k Dir) p = (Inr (), w')"
  shows "w' = w"
proof -
  from assms(1) have k: "k \<noteq> []" "k \<notin> fst ` set (files w)"
    by (auto simp: lookup_def map_of_eq_None_iff split: if_splits)
  have "filter (\<lambda>e. fst e \<noteq> k) (files w) = files w"
    using k(2) by (auto simp: filter_id_conv)
  then have "filter (\<lambda>e. fst e \<noteq> k) (files (put w k Dir)) = files w"
    using assms(1) by (simp add: files_put_fresh)
  moreover have "w' = (put w k Dir)\<lparr>files := filter (\<lambda>e. fst e \<noteq> k) (files (put w k Dir))\<rparr>"
    using rmdir_cases [OF assms(3)] assms(2) by auto
  ultimately show ?thesis by (simp add: put_def)
qed

subsection \<open>File contents are kept by directory operations\<close>

lemma same_files_refl [simp]: "same_files w w"
  by (simp add: same_files_def)

lemma same_files_trans: "same_files a b \<Longrightarrow> same_files b c \<Longrightarrow> same_files a c"
  by (simp add: same_files_def)

lemma same_files_put_Dir: "lookup w k = None \<Longrightarrow> same_files w (put w k Dir)"
  by (auto simp: same_files_def lookup_put)

lemma same_files_mkdir_key: "mkdir_key w k = (r, w') \<Longrightarrow> same_files w w'"
  using mkdir_key_cases [of w k r w'] by (auto simp: same_files_put_Dir)

lemma same_files_makedirs_key: "makedirs_key w k = (r, w') \<Longrightarrow> same_files w w'"
proof (induction w k arbitrary: r w' rule: makedirs_key.induct)
  case (1 w k)
  show ?case
  proof (cases "k \<noteq> [] \<and> lookup w (butlast k) = None")
    case True
    obtain r1 w1 where m: "makedirs_key w (butlast k) = (r1, w1)" by (cases "makedirs_key w (butlast k)")
    with True 1 have s1: "same_files w w1" by blast
    from "1.prems" True m have "mkdir_key w1 k = (r, w') \<or> w' = w1"
      by (subst (asm) makedirs_key.simps) (auto split: sum.splits if_splits)
    then have "same_files w1 w'" by (auto simp: same_files_mkdir_key)
    with s1 show ?thesis by (rule same_files_trans)
  next
    case False
    with "1.prems" have "mkdir_key w k = (r, w')"
      by (subst (asm) makedirs_key.simps) simp
    then show ?thesis by (rule same_files_mkdir_key)
  qed
qed

lemma same_files_makedirs: "makedirs w p = (r, w') \<Longrightarrow> same_files w w'"
  by (auto simp: makedirs_def same_files_makedirs_key split: if_splits)

lemma lookup_filter_other:
  "k' \<noteq> k \<Longrightarrow> lookup (w\<lparr>files := filter (\<lambda>e. fst e \<noteq> k) (files w)\<rparr>) k' = lookup w k'"
proof -
  assume "k' \<noteq> k"
  then have "map_of (filter (\<lambda>e. fst e \<noteq> k) al) k' = map_of al k'" for al :: "(string list \<times> node) list"
    by (induction al) auto
  then show ?thesis by (simp add: lookup_def)
qed

lemma lookup_filter_same:
  "k \<noteq> [] \<Longrightarrow> lookup (w\<lparr>files := filter (\<lambda>e. fst e \<noteq> k) (files w)\<rparr>) k = None"
  by (auto simp: lookup_def map_of_eq_None_iff)

lemma same_files_rmdir: "rmdir w p = (r, w') \<Longrightarrow> same_files w w'"
proof -
  assume a: "rmdir w p = (r, w')"
  from rmdir_cases [OF a] show ?thesis
  proof
    assume b: "r = Inr () \<and> p \<noteq> [] \<and> lookup w (resolve w p) = Some Dir \<and> resolve w p \<noteq> []
            \<and> w' = w\<lparr>files := filter (\<lambda>e. fst e \<noteq> resolve w p) (files w)\<rparr>"
    show ?thesis unfolding same_files_def
    proof (intro allI)
      fix k c
      show "(lookup w' k = Some (File c)) = (lookup w k = Some (File c))"
        using b by (cases "k = resolve w p") (auto simp: lookup_filter_other lookup_filter_same)
    qed
  next
    assume "(\<exists>e. r = Inl e) \<and> w' = w"
    then show ?thesis by simp
  qed
qed

subsection \<open>A soft run\<close>

lemma save_softrun: "save w f d verb True = (r, w') \<Longrightarrow> w' = w"
  by (auto simp: save_def split: if_splits)

lemma jpg_loop_softrun: "jpg_loop w s verb True ps = (r, w') \<Longrightarrow> w' = w"
proof (induction ps)
  case Nil
  then show ?case by simp
next
  case (Cons p ps)
  then show ?case
    by (auto split: list.splits sum.splits prod.splits dest: save_softrun)
qed

lemma csv_files_loop_softrun: "csv_files_loop w s rn verb True xs = (r, w') \<Longrightarrow> w' = w"
proof (induction xs)
  case Nil
  then show ?case by simp
next
  case (Cons x xs)
  then show ?case
    by (auto split: list.splits sum.splits prod.splits dest: save_softrun)
qed

subsection \<open>The steps of the loops\<close>

lemma jpg_loop_Cons_cases:
  assumes "jpg_loop w s verb sr (p # ps) = (r, w')"
  obtains (no_jpg) "glob w (path_join p ''*.JPG'') = []" "r = Inl IndexError" "w' = w"
  | (init_fail) x xs e where "glob w (path_join p ''*.JPG'') = x # xs"
      "JPGFile_init w x = Inl e" "r = Inl e" "w' = w"
  | (save_fail) x xs f e where "glob w (path_join p ''*.JPG'') = x # xs"
      "JPGFile_init w x = Inr f" "save w f s verb sr = (Inl e, w')" "r = Inl e"
  | (ok) x xs f w1 where "glob w (path_join p ''*.JPG'') = x # xs"
      "JPGFile_init w x = Inr f" "save w f s verb sr = (Inr (), w1)"
      "jpg_loop w1 s verb sr ps = (r, w')"
proof (cases "glob w (path_join p ''*.JPG'')")
  case Nil
  with assms show thesis by (intro no_jpg) auto
next
  case (Cons x xs)
  show thesis
  proof (cases "JPGFile_init w x")
    case (Inl e)
    with assms Cons show thesis by (intro init_fail [of x xs e]) auto
  next
    case (Inr f)
    obtain r1 w1 where 1: "save w f s verb sr = (r1, w1)" by (cases "save w f s verb sr")
    show thesis
    proof (cases r1)
      case (Inl e)
      with assms Cons Inr 1 show thesis by (intro save_fail [of x xs f e]) auto
    next
      case r1: (Inr u)
      with assms Cons Inr 1 show thesis by (intro ok [of x xs f w1]) auto
    qed
  qed
qed

lemma csv_files_loop_Cons_cases:
  assumes "csv_files_loop w s rn verb sr (x # xs) = (r, w')"
  obtains (init_fail) e where "CSVFile_init w x rn = Inl e" "r = Inl e" "w' = w"
  | (save_fail) f e where "CSVFile_init w x rn = Inr f" "save w f s verb sr = (Inl e, w')" "r = Inl e"
  | (ok) f w1 where "CSVFile_init w x rn = Inr f" "save w f s verb sr = (Inr (), w1)"
      "csv_files_loop w1 s rn verb sr xs = (r, w')"
proof (cases "CSVFile_init w x rn")
  case (Inl e)
  with assms show thesis by (intro init_fail [of e]) auto
next
  case (Inr f)
  obtain r1 w1 where 1: "save w f s verb sr = (r1, w1)" by (cases "save w f s verb sr")
  show thesis
  proof (cases r1)
    case (Inl e)
    with assms Inr 1 show thesis by (intro save_fail [of f e]) auto
  next
    case r1: (Inr u)
    with assms Inr 1 show thesis by (intro ok [of f w1]) auto
  qed
qed

lemma csv_loop_Cons_cases:
  assumes "csv_loop w dest cf rn verb sr (p # ps) = (r, w')"
    and "ts = (if cf then path_join dest (basename p) else dest)"
  obtains (mk_fail) e where
      "(if cf \<and> \<not> path_exists w ts then makedirs w ts else (Inr (), w)) = (Inl e, w')" "r = Inl e"
  | (files_fail) w1 e where
      "(if cf \<and> \<not> path_exists w ts then makedirs w ts else (Inr (), w)) = (Inr (), w1)"
      "csv_files_loop w1 ts rn verb sr (glob w1 (path_join p ''*.CSV'')) = (Inl e, w')" "r = Inl e"
  | (rm_fail) w1 w2 e where
      "(if cf \<and> \<not> path_exists w ts then makedirs w ts else (Inr (), w)) = (Inr (), w1)"
      "csv_files_loop w1 ts rn verb sr (glob w1 (path_join p ''*.CSV'')) = (Inr (), w2)"
      "(if sr \<and> cf then rmdir w2 ts else (Inr (), w2)) = (Inl e, w')" "r = Inl e"
  | (ok) w1 w2 w3 where
      "(if cf \<and> \<not> path_exists w ts then makedirs w ts else (Inr (), w)) = (Inr (), w1)"
      "csv_files_loop w1 ts rn verb sr (glob w1 (path_join p ''*.CSV'')) = (Inr (), w2)"
      "(if sr \<and> cf then rmdir w2 ts else (Inr (), w2)) = (Inr (), w3)"
      "csv_loop w3 dest cf rn verb sr ps = (r, w')"
proof -
  obtain r1 w1 where 1: "(if cf \<and> \<not> path_exists w ts then makedirs w ts else (Inr (), w)) = (r1, w1)"
    by (cases "(if cf \<and> \<not> path_exists w ts then makedirs w ts else (Inr (), w))")
  obtain r2 w2 where 2: "csv_files_loop w1 ts rn verb sr (glob w1 (path_join p ''*.CSV'')) = (r2, w2)"
    by (cases "csv_files_loop w1 ts rn verb sr (glob w1 (path_join p ''*.CSV''))")
  obtain r3 w3 where 3: "(if sr \<and> cf then rmdir w2 ts else (Inr (), w2)) = (r3, w3)"
    by (cases "(if sr \<and> cf then rmdir w2 ts else (Inr (), w2))")
  from assms(1) have a: "(case (if cf \<and> \<not> path_exists w ts then makedirs w ts else (Inr (), w)) of
            (Inl e, w1) \<Rightarrow> (Inl e, w1)
          | (Inr u, w1) \<Rightarrow>
              (case csv_files_loop w1 ts rn verb sr (glob w1 (path_join p ''*.CSV'')) of
                 (Inl e, w2) \<Rightarrow> (Inl e, w2)
               | (Inr u, w2) \<Rightarrow>
                   (case (if sr \<and> cf then rmdir w2 ts else (Inr (), w2)) of
                      (Inl e, w3) \<Rightarrow> (Inl e, w3)
                    | (Inr u, w3) \<Rightarrow> csv_loop w3 dest cf rn verb sr ps))) = (r, w')"
    unfolding assms(2) by (simp add: Let_def)
  show thesis
  proof (cases r1)
    case (Inl e)
    with a 1 show thesis by (intro mk_fail [of e]) auto
  next
    case r1: (Inr u)
    show thesis
    proof (cases r2)
      case (Inl e)
      with a 1 2 r1 show thesis by (intro files_fail [of w1 e]) auto
    next
      case r2: (Inr u2)
      show thesis
      proof (cases r3)
        case (Inl e)
        with a 1 2 3 r1 r2 show thesis by (intro rm_fail [of w1 w2 e]) auto
      next
        case (Inr u3)
        with a 1 2 3 r1 r2 show thesis by (intro ok [of w1 w2 w3]) auto
      qed
    qed
  qed
qed

lemma save_jpgs_cases:
  assumes "save_jpgs self w dest verb sr = (r, w')"
    and "ts = path_join dest ''jpgs''"
  obtains (mk_fail) e where
      "(if \<not> path_exists w ts then makedirs w ts else (Inr (), w)) = (Inl e, w')" "r = Inl e"
  | (loop_fail) w1 e where
      "(if \<not> path_exists w ts then makedirs w ts else (Inr (), w)) = (Inr (), w1)"
      "jpg_loop w1 ts verb sr (exercise_parts self) = (Inl e, w')" "r = Inl e"
  | (ok) w1 w2 where
      "(if \<not> path_exists w ts then makedirs w ts else (Inr (), w)) = (Inr (), w1)"
      "jpg_loop w1 ts verb sr (exercise_parts self) = (Inr (), w2)"
      "(if sr then rmdir w2 ts else (Inr (), w2)) = (r, w')"
proof -
  obtain r1 w1 where 1: "(if \<not> path_exists w ts then makedirs w ts else (Inr (), w)) = (r1, w1)"
    by (cases "(if \<not> path_exists w ts then makedirs w ts else (Inr (), w))")
  obtain r2 w2 where 2: "jpg_loop w1 ts verb sr (exercise_parts self) = (r2, w2)"
    by (cases "jpg_loop w1 ts verb sr (exercise_parts self)")
  from assms(1) have a: "(case (if \<not> path_exists w ts then makedirs w ts else (Inr (), w)) of
            (Inl e, w1) \<Rightarrow> (Inl e, w1)
          | (Inr u, w1) \<Rightarrow>
              (case jpg_loop w1 ts verb sr (exercise_parts self) of
                 (Inl e, w2) \<Rightarrow> (Inl e, w2)
               | (Inr u, w2) \<Rightarrow> if sr then rmdir w2 ts else (Inr (), w2))) = (r, w')"
    unfolding assms(2) by (simp add: save_jpgs_def Let_def)
  show thesis
  proof (cases r1)
    case (Inl e)
    with a 1 show thesis by (intro mk_fail [of e]) auto
  next
    case r1: (Inr u)
    show thesis
    proof (cases r2)
      case (Inl e)
      with a 1 2 r1 show thesis by (intro loop_fail [of w1 e]) auto
    next
      case (Inr u2)
      with a 1 2 r1 show thesis by (intro ok [of w1 w2]) auto
    qed
  qed
qed

lemma copy_scope_data_cases:
  assumes "copy_scope_data self w dest cf rn sj verb sr = (r, w')"
  obtains (no_dest) "\<not> path_exists w dest" "r = Inl FileNotFoundError" "w' = w"
  | (jpg_fail) e where "path_exists w dest"
      "(if sj then save_jpgs self w dest verb sr else (Inr (), w)) = (Inl e, w')" "r = Inl e"
  | (ok) w1 where "path_exists w dest"
      "(if sj then save_jpgs self w dest verb sr else (Inr (), w)) = (Inr (), w1)"
      "csv_loop w1 dest cf rn verb sr (exercise_parts self) = (r, w')"
proof -
  obtain r1 w1 where 1: "(if sj then save_jpgs self w dest verb sr else (Inr (), w)) = (r1, w1)"
    by (cases "(if sj then save_jpgs self w dest verb sr else (Inr (), w))")
  show thesis
  proof (cases "path_exists w dest")
    case False
    with assms show thesis by (intro no_dest) (auto simp: copy_scope_data_def)
  next
    case True
    show thesis
    proof (cases r1)
      case (Inl e)
      with assms 1 True show thesis by (intro jpg_fail [of e]) (auto simp: copy_scope_data_def)
    next
      case (Inr u)
      with assms 1 True show thesis by (intro ok [of w1]) (auto simp: copy_scope_data_def)
    qed
  qed
qed

lemmas csv_loop_step =
  csv_loop_Cons_cases [OF _ refl, consumes 1, case_names mk_fail files_fail rm_fail ok]

lemmas save_jpgs_step =
  save_jpgs_cases [OF _ refl, consumes 1, case_names mk_fail loop_fail ok]

lemma plain_jpgs [simp]: "plain ''jpgs''"
  by (simp add: plain_def)

lemma mk_rm_roundtrip:
  assumes "path_exists w d" "plain n" "\<not> path_exists w (path_join d n)"
    and "makedirs w (path_join d n) = (Inr (), w1)"
    and "rmdir w1 (path_join d n) = (Inr (), w3)"
  shows "w3 = w"
proof -
  let ?k = "resolve w d @ [n]"
  have "mkdir_key w ?k = (Inr (), w1)"
    using assms(1,2,4) by (simp add: makedirs_below)
  with mkdir_key_cases [of w ?k "Inr ()" w1]
  have w1: "w1 = put w ?k Dir" and none: "lookup w ?k = None" by auto
  have "resolve w (path_join d n) = ?k" using assms(2) by (rule resolve_join)
  with none assms(5) w1 show ?thesis by (auto intro: rmdir_after_mkdir)
qed

lemma same_files_ensure:
  "(if c then makedirs w ts else (Inr (), w)) = (r, w1) \<Longrightarrow> same_files w w1"
  by (auto split: if_splits dest: same_files_makedirs)

lemma same_files_cleanup:
  "(if c then rmdir w ts else (Inr (), w)) = (r, w1) \<Longrightarrow> same_files w w1"
  by (auto split: if_splits dest: same_files_rmdir)

lemma csv_loop_softrun_same_files:
  "csv_loop w dest cf rn verb True ps = (r, w') \<Longrightarrow> same_files w w'"
proof (induction ps arbitrary: w r w')
  case Nil
  then show ?case by simp
next
  case (Cons p ps)
  from Cons.prems show ?case
  proof (cases rule: csv_loop_step)
    case (mk_fail e)
    then show ?thesis by (auto dest: same_files_ensure)
  next
    case (files_fail w1 e)
    then have "same_files w w1" "w' = w1"
      by (auto dest: same_files_ensure csv_files_loop_softrun)
    then show ?thesis by simp
  next
    case (rm_fail w1 w2 e)
    then have "same_files w w1" "w2 = w1" "same_files w2 w'"
      by (auto dest: same_files_ensure csv_files_loop_softrun same_files_cleanup)
    then show ?thesis by (auto intro: same_files_trans)
  next
    case (ok w1 w2 w3)
    then have "same_files w w1" "w2 = w1" "same_files w2 w3" "same_files w3 w'"
      using Cons.IH by (auto dest: same_files_ensure csv_files_loop_softrun same_files_cleanup)
    then show ?thesis by (auto intro: same_files_trans)
  qed
qed

lemma csv_loop_softrun_unchanged:
  assumes "csv_loop w dest cf rn verb True ps = (Inr (), w')" "path_exists w dest"
    and "cf \<Longrightarrow> \<forall>p\<in>set ps. plain (basename p) \<and> \<not> path_exists w (path_join dest (basename p))"
  shows "w' = w"
  using assms
proof (induction ps)
  case Nil
  then show ?case by simp
next
  case (Cons p ps)
  from Cons.prems(1) show ?case
  proof (cases rule: csv_loop_step)
    case (ok w1 w2 w3)
    have w2: "w2 = w1" using ok(2) by (rule csv_files_loop_softrun)
    have "w3 = w"
    proof (cases cf)
      case True
      with Cons.prems(3) have p: "plain (basename p)" "\<not> path_exists w (path_join dest (basename p))"
        by auto
      from ok(1) True p have mk: "makedirs w (path_join dest (basename p)) = (Inr (), w1)" by simp
      from ok(3) True w2 have rm: "rmdir w1 (path_join dest (basename p)) = (Inr (), w3)" by simp
      from Cons.prems(2) p mk rm show ?thesis by (rule mk_rm_roundtrip)
    next
      case False
      with ok w2 show ?thesis by simp
    qed
    with ok(4) Cons show ?thesis by simp
  qed simp_all
qed

lemma save_jpgs_softrun_same_files:
  "save_jpgs self w dest verb True = (r, w') \<Longrightarrow> same_files w w'"
proof -
  assume a: "save_jpgs self w dest verb True = (r, w')"
  then show ?thesis
  proof (cases rule: save_jpgs_step)
    case (mk_fail e)
    then show ?thesis by (auto dest: same_files_ensure)
  next
    case (loop_fail w1 e)
    then have "same_files w w1" "w' = w1"
      by (auto dest: same_files_ensure jpg_loop_softrun)
    then show ?thesis by simp
  next
    case (ok w1 w2)
    then have "same_files w w1" "w2 = w1" "same_files w2 w'"
      by (auto dest: same_files_ensure jpg_loop_softrun same_files_cleanup same_files_rmdir)
    then show ?thesis by (auto intro: same_files_trans)
  qed
qed

lemma save_jpgs_softrun_unchanged:
  assumes "save_jpgs self w dest verb True = (Inr (), w')" "path_exists w dest"
    and "\<not> path_exists w (path_join dest ''jpgs'')"
  shows "w' = w"
  using assms(1)
proof (cases rule: save_jpgs_step)
  case (ok w1 w2)
  have w2: "w2 = w1" using ok(2) by (rule jpg_loop_softrun)
  from ok(1) assms(3) have mk: "makedirs w (path_join dest ''jpgs'') = (Inr (), w1)" by simp
  from ok(3) w2 have rm: "rmdir w1 (path_join dest ''jpgs'') = (Inr (), w')" by simp
  from assms(2) plain_jpgs assms(3) mk rm show ?thesis by (rule mk_rm_roundtrip)
qed simp_all

section \<open>Writes stay inside the destination\<close>

subsection \<open>What lies outside a directory\<close>

lemma frame_refl [simp]: "frame t w w"
  by (simp add: frame_def)

lemma frame_trans: "frame t a b \<Longrightarrow> frame t b c \<Longrightarrow> frame t a c"
  by (simp add: frame_def)

lemma frame_cwd: "frame t w w' \<Longrightarrow> cwd w' = cwd w"
  by (simp add: frame_def)

lemma frame_resolve: "frame t w w' \<Longrightarrow> resolve w' p = resolve w p"
  by (simp add: frame_def resolve_def)

lemma filter_update_out:
  "\<not> P k \<Longrightarrow> filter (\<lambda>e. P (fst e)) (AList.update k v al) = filter (\<lambda>e. P (fst e)) al"
  by (induction al) auto

lemma frame_put: "strict_prefix t k \<Longrightarrow> frame t w (put w k v)"
  using filter_update_out [of "\<lambda>k. \<not> strict_prefix t k" k v "files w"]
  by (simp add: frame_def put_def)

lemma frame_remove: "strict_prefix t k \<Longrightarrow> frame t w (w\<lparr>files := filter (\<lambda>e. fst e \<noteq> k) (files w)\<rparr>)"
proof -
  assume "strict_prefix t k"
  then have "filter (\<lambda>e. \<not> strict_prefix t (fst e)) (filter (\<lambda>e. fst e \<noteq> k) al)
      = filter (\<lambda>e. \<not> strict_prefix t (fst e)) al" for al :: "(string list \<times> node) list"
    by (induction al) auto
  then show ?thesis by (simp add: frame_def)
qed

lemma map_of_filter_in:
  "P k \<Longrightarrow> map_of (filter (\<lambda>e. P (fst e)) al) k = map_of al k"
  by (induction al) auto

lemma frame_lookup:
  assumes "frame t w w'" "\<not> strict_prefix t k"
  shows "lookup w' k = lookup w k"
proof -
  have "map_of (files w') k = map_of (filter (\<lambda>e. \<not> strict_prefix t (fst e)) (files w')) k"
    using assms(2) map_of_filter_in [of "\<lambda>k. \<not> strict_prefix t k" k "files w'"] by simp
  also have "\<dots> = map_of (filter (\<lambda>e. \<not> strict_prefix t (fst e)) (files w)) k"
    using assms(1) by (simp add: frame_def)
  also have "\<dots> = map_of (files w) k"
    using assms(2) map_of_filter_in [of "\<lambda>k. \<not> strict_prefix t k" k "files w"] by simp
  finally show ?thesis by (simp add: lookup_def)
qed

lemma frame_mono:
  assumes "prefix t s" "frame s w w'"
  shows "frame t w w'"
proof -
  have imp: "\<not> strict_prefix t k \<Longrightarrow> \<not> strict_prefix s k" for k
    using assms(1) by (meson prefix_order.le_less_trans)
  have "filter (\<lambda>e. \<not> strict_prefix t (fst e)) al
      = filter (\<lambda>e. \<not> strict_prefix t (fst e)) (filter (\<lambda>e. \<not> strict_prefix s (fst e)) al)"
    for al :: "(string list \<times> node) list"
    using imp by (induction al) auto
  note h = this
  from assms(2) have eq: "filter (\<lambda>e. \<not> strict_prefix s (fst e)) (files w')
      = filter (\<lambda>e. \<not> strict_prefix s (fst e)) (files w)"
    and c: "cwd w' = cwd w" by (simp_all add: frame_def)
  have "filter (\<lambda>e. \<not> strict_prefix t (fst e)) (files w')
      = filter (\<lambda>e. \<not> strict_prefix t (fst e)) (filter (\<lambda>e. \<not> strict_prefix s (fst e)) (files w'))"
    by (rule h)
  also have "\<dots> = filter (\<lambda>e. \<not> strict_prefix t (fst e)) (filter (\<lambda>e. \<not> strict_prefix s (fst e)) (files w))"
    by (simp only: eq)
  also have "\<dots> = filter (\<lambda>e. \<not> strict_prefix t (fst e)) (files w)"
    by (rule h [symmetric])
  finally show ?thesis using c by (simp add: frame_def)
qed

lemma strict_prefix_snoc [simp]: "strict_prefix t (t @ [n])"
  by (simp add: strict_prefix_def)

lemma strict_prefix_snoc2 [simp]: "strict_prefix t (t @ [n, m])"
  by (simp add: strict_prefix_def)

lemma frame_path_exists:
  "frame (resolve w d) w w' \<Longrightarrow> path_exists w' d = path_exists w d"
  by (simp add: path_exists_def frame_resolve frame_lookup)

subsection \<open>Directory operations stay inside\<close>

lemma frame_makedirs_below:
  assumes "path_exists w d" "plain n" "makedirs w (path_join d n) = (r, w')"
  shows "frame (resolve w d) w w'"
proof -
  have "mkdir_key w (resolve w d @ [n]) = (r, w')"
    using assms by (simp add: makedirs_below)
  from mkdir_key_cases [OF this] show ?thesis by (auto simp: frame_put)
qed

lemma frame_rmdir_below:
  assumes "plain n" "rmdir w (path_join d n) = (r, w')"
  shows "frame (resolve w d) w w'"
  using rmdir_cases [OF assms(2)] assms(1)
  by (auto simp: resolve_join frame_remove)

subsection \<open>Saving a file\<close>

lemma write_file_cases:
  assumes "write_file w p c = (r, w')"
  shows "(r = Inr () \<and> p \<noteq> [] \<and> w' = put w (resolve w p) (File c)
            \<and> lookup w (resolve w p) \<noteq> Some Dir
            \<and> lookup w (butlast (resolve w p)) = Some Dir)
         \<or> ((\<exists>e. r = Inl e) \<and> w' = w)"
  using assms
  by (auto simp: write_file_def Let_def split: if_splits option.splits node.splits)

lemma shutil_copy_cases:
  assumes "shutil_copy w src dst = (r, w')"
  shows "(r = Inr () \<and> src \<noteq> []
           \<and> (\<exists>c. lookup w (resolve w src) = Some (File c)
                \<and> w' = put w (resolve w (copy_dst w src dst)) (File c))
           \<and> copy_dst w src dst \<noteq> []
           \<and> resolve w (copy_dst w src dst) \<noteq> resolve w src
           \<and> lookup w (resolve w (copy_dst w src dst)) \<noteq> Some Dir
           \<and> lookup w (butlast (resolve w (copy_dst w src dst))) = Some Dir)
         \<or> ((\<exists>e. r = Inl e) \<and> w' = w)"
proof -
  let ?d = "copy_dst w src dst"
  from assms have cf: "copyfile w src ?d = (r, w')"
    by (simp add: shutil_copy_def copy_dst_def)
  show ?thesis
  proof (cases "path_exists w src \<and> path_exists w ?d \<and> resolve w src = resolve w ?d")
    case True
    with cf show ?thesis by (auto simp: copyfile_def)
  next
    case False
    show ?thesis
    proof (cases "src = []")
      case True
      with cf False show ?thesis by (auto simp: copyfile_def split: if_splits)
    next
      case ne: False
      show ?thesis
      proof (cases "lookup w (resolve w src)")
        case None
        with cf False ne show ?thesis by (auto simp: copyfile_def split: if_splits)
      next
        case (Some nd)
        show ?thesis
        proof (cases nd)
          case Dir
          with cf False ne Some show ?thesis by (auto simp: copyfile_def split: if_splits)
        next
          case (File c)
          with cf False ne Some have wf: "write_file w ?d c = (r, w')"
            by (auto simp: copyfile_def split: if_splits)
          from write_file_cases [OF wf] show ?thesis
          proof
            assume ok: "r = Inr () \<and> ?d \<noteq> [] \<and> w' = put w (resolve w ?d) (File c)
                \<and> lookup w (resolve w ?d) \<noteq> Some Dir
                \<and> lookup w (butlast (resolve w ?d)) = Some Dir"
            have "resolve w ?d \<noteq> resolve w src"
            proof
              assume eq: "resolve w ?d = resolve w src"
              with Some ok ne have "path_exists w src \<and> path_exists w ?d"
                by (simp add: path_exists_def)
              with False eq show False by simp
            qed
            with ok Some File ne show ?thesis by auto
          next
            assume "(\<exists>e. r = Inl e) \<and> w' = w"
            then show ?thesis by simp
          qed
        qed
      qed
    qed
  qed
qed

lemma resolve_copy_dst:
  assumes "plain n" "plain (basename src)"
  shows "resolve w (copy_dst w src (path_join s n)) = resolve w s @ [n]
         \<or> resolve w (copy_dst w src (path_join s n)) = resolve w s @ [n, basename src]"
  using assms by (auto simp: copy_dst_def resolve_join)

lemma save_failed: "save w f s verb sr = (Inl e, w') \<Longrightarrow> w' = w"
proof -
  assume a: "save w f s verb sr = (Inl e, w')"
  show ?thesis
  proof (cases "path_exists w s \<and> \<not> sr")
    case True
    with a have "shutil_copy w (location f) (path_join s (name f)) = (Inl e, w')"
      by (simp add: save_def)
    from shutil_copy_cases [OF this] show ?thesis by auto
  next
    case False
    with a show ?thesis by (auto simp: save_def split: if_splits)
  qed
qed

lemma save_cases:
  assumes "save w f s verb sr = (Inr (), w')"
  shows "path_exists w s
         \<and> (sr \<and> w' = w
            \<or> \<not> sr \<and> shutil_copy w (location f) (path_join s (name f)) = (Inr (), w'))"
  using assms by (auto simp: save_def split: if_splits)

lemma frame_save:
  assumes "plain (name f)" "plain (basename (location f))" "save w f s verb sr = (r, w')"
  shows "frame (resolve w s) w w'"
proof (cases r)
  case (Inl e)
  with assms(3) show ?thesis by (auto dest: save_failed)
next
  case (Inr u)
  with assms(3) have "sr \<and> w' = w
      \<or> \<not> sr \<and> shutil_copy w (location f) (path_join s (name f)) = (Inr (), w')"
    using save_cases [of w f s verb sr w'] by simp
  then show ?thesis
  proof
    assume "sr \<and> w' = w"
    then show ?thesis by simp
  next
    assume "\<not> sr \<and> shutil_copy w (location f) (path_join s (name f)) = (Inr (), w')"
    then have sc: "shutil_copy w (location f) (path_join s (name f)) = (Inr (), w')" by simp
    from shutil_copy_cases [OF sc] obtain c where
      w': "w' = put w (resolve w (copy_dst w (location f) (path_join s (name f)))) (File c)"
      by auto
    from resolve_copy_dst [OF assms(1,2), of w s]
    have "strict_prefix (resolve w s) (resolve w (copy_dst w (location f) (path_join s (name f))))"
      by auto
    with w' show ?thesis by (simp add: frame_put)
  qed
qed

subsection \<open>The files of an exercise part\<close>

lemma basename_plain_path:
  assumes "plain (basename p)"
  shows "p \<noteq> []" and "last p \<noteq> CHR ''/''"
proof -
  show ne: "p \<noteq> []" using assms by (auto simp: basename_def plain_def)
  show "last p \<noteq> CHR ''/''"
  proof
    assume "last p = CHR ''/''"
    with ne obtain q where "p = q @ ''/''" by (metis append_butlast_last_id)
    then have "basename p = []" by (simp add: basename_def)
    with assms show False by (simp add: plain_def)
  qed
qed

lemma path_join_part:
  "plain (basename p) \<Longrightarrow> plain n \<Longrightarrow> path_join p n = p @ CHR ''/'' # n"
  using basename_plain_path [of p] by (simp add: path_join_plain)

lemma glob_part:
  assumes "plain (basename p)" "CHR ''/'' \<notin> set pat" "pat \<noteq> []" "has_magic pat"
  shows "glob w (path_join p pat) = map (path_join p) (glob1 w p pat)"
  using glob_join [OF basename_plain_path(1) [OF assms(1)] assms(2,3,4), of w]
    head_of_id [OF basename_plain_path [OF assms(1)]] by simp

lemma magic_patterns [simp]: "has_magic ''*.JPG''" "has_magic ''*.CSV''" "has_magic ''E*P*''"
  by (simp_all add: has_magic_def)

lemma glob_part_elem:
  assumes "plain (basename p)" "CHR ''/'' \<notin> set pat" "pat \<noteq> []" "has_magic pat"
    and "x \<in> set (glob w (path_join p pat))"
  shows "\<exists>n. plain n \<and> fnmatch n pat \<and> x = path_join p n"
  using assms(5) unfolding glob_part [OF assms(1-4)] by (auto dest: glob1_elem)

lemma index_m2_snoc: "xs \<noteq> [] \<Longrightarrow> index_m2 (xs @ [a]) = Inr (last xs)"
  by (cases xs rule: rev_cases) (auto simp: index_m2_def nth_append)

lemma index_m2_part:
  assumes "plain (basename p)" "plain n"
  shows "index_m2 (split_on CHR ''/'' (path_join p n)) = Inr (basename p)"
proof -
  have "split_on CHR ''/'' (p @ CHR ''/'' # n) = split_on CHR ''/'' p @ [n]"
    using assms(2) by (simp add: split_on_snoc_name plain_def)
  then show ?thesis
    using assms by (simp add: path_join_part index_m2_snoc last_split_on)
qed

lemma JPGFile_init_part:
  assumes "plain (basename p)" "plain n" "JPGFile_init w (path_join p n) = Inr f"
  shows "location f = path_join p n" "name f = lower (basename p) @ ''.jpg''"
    "path_exists w (path_join p n)"
  using assms(3) index_m2_part [OF assms(1,2)]
  by (auto simp: JPGFile_init_def File_init_def split: if_splits)

lemma CSVFile_init_part:
  assumes "plain (basename p)" "plain n" "CSVFile_init w (path_join p n) rn = Inr f"
  shows "location f = path_join p n"
    "name f = (if rn then lower (basename p @ ''.'' @ last7 n) else n)"
    "path_exists w (path_join p n)"
  using assms(3) index_m2_part [OF assms(1,2)] basename_join [OF assms(2), of p]
  by (auto simp: CSVFile_init_def File_init_def split: if_splits)

lemma plain_long: "CHR ''/'' \<notin> set s \<Longrightarrow> 3 \<le> length s \<Longrightarrow> plain s"
  by (auto simp: plain_def)

lemma length_lower [simp]: "length (lower s) = length s"
  by (simp add: lower_def)

lemma plain_jpg_name: "CHR ''/'' \<notin> set b \<Longrightarrow> plain (lower b @ ''.jpg'')"
  by (rule plain_long) simp_all

lemma last7_nonempty: "n \<noteq> [] \<Longrightarrow> last7 n \<noteq> []"
proof -
  assume "n \<noteq> []"
  then have "0 < length n" by simp
  then have "length n - 7 < length n" by arith
  then show ?thesis by (simp add: last7_def)
qed

lemma set_last7: "set (last7 n) \<subseteq> set n"
  by (simp add: last7_def set_drop_subset)

lemma plain_csv_name:
  assumes "plain b" "plain n"
  shows "plain (lower (b @ ''.'' @ last7 n))"
proof (rule plain_long)
  show "CHR ''/'' \<notin> set (lower (b @ ''.'' @ last7 n))"
    using assms set_last7 [of n] by (auto simp: plain_def)
  have "b \<noteq> []" "last7 n \<noteq> []" using assms by (auto simp: plain_def last7_nonempty)
  then have "1 \<le> length b" "1 \<le> length (last7 n)" by (simp_all add: Suc_leI)
  then show "3 \<le> length (lower (b @ ''.'' @ last7 n))" by simp
qed

lemma plain_basename_no_slash: "plain b \<Longrightarrow> CHR ''/'' \<notin> set b"
  by (simp add: plain_def)

subsection \<open>The loops write inside the destination only\<close>

lemma frame_jpg_loop:
  assumes "\<forall>p\<in>set ps. plain (basename p)" "jpg_loop w s verb sr ps = (r, w')"
  shows "frame (resolve w s) w w'"
  using assms
proof (induction ps arbitrary: w)
  case Nil
  then show ?case by simp
next
  case (Cons p ps)
  have pb: "plain (basename p)" using Cons.prems(1) by simp
  from Cons.prems(2) show ?case
  proof (cases rule: jpg_loop_Cons_cases)
    case no_jpg
    then show ?thesis by simp
  next
    case (init_fail x xs e)
    then show ?thesis by simp
  next
    case (save_fail x xs f e)
    then show ?thesis by (auto dest: save_failed)
  next
    case (ok x xs f w1)
    from ok(1) obtain n where n: "plain n" "x = path_join p n"
      using glob_part_elem [OF pb, of "''*.JPG''" x w] by auto
    from JPGFile_init_part [OF pb n(1)] ok(2) n(2)
    have f: "location f = path_join p n" "name f = lower (basename p) @ ''.jpg''" by auto
    have "plain (name f)" "plain (basename (location f))"
      using f pb n(1) by (simp_all add: plain_jpg_name plain_basename_no_slash basename_join)
    then have 1: "frame (resolve w s) w w1" using ok(3) by (rule frame_save)
    have "frame (resolve w1 s) w1 w'" using Cons.IH [OF _ ok(4)] Cons.prems(1) by simp
    with 1 show ?thesis by (auto simp: frame_resolve intro: frame_trans)
  qed
qed

lemma frame_csv_files_loop:
  assumes "plain (basename p)" "\<forall>x\<in>set xs. \<exists>n. plain n \<and> x = path_join p n"
    and "csv_files_loop w s rn verb sr xs = (r, w')"
  shows "frame (resolve w s) w w'"
  using assms(2,3)
proof (induction xs arbitrary: w)
  case Nil
  then show ?case by simp
next
  case (Cons x xs)
  from Cons.prems(1) obtain n where n: "plain n" "x = path_join p n" by auto
  from Cons.prems(2) show ?case
  proof (cases rule: csv_files_loop_Cons_cases)
    case (init_fail e)
    then show ?thesis by simp
  next
    case (save_fail f e)
    then show ?thesis by (auto dest: save_failed)
  next
    case (ok f w1)
    from CSVFile_init_part [OF assms(1) n(1), of w rn f] ok(1) n(2)
    have f: "location f = path_join p n"
      "name f = (if rn then lower (basename p @ ''.'' @ last7 n) else n)" by auto
    have "plain (name f)" "plain (basename (location f))"
      using f assms(1) n(1) plain_csv_name [OF assms(1) n(1)] by (simp_all add: basename_join)
    then have 1: "frame (resolve w s) w w1" using ok(2) by (rule frame_save)
    have "frame (resolve w1 s) w1 w'" using Cons.IH [OF _ ok(3)] Cons.prems(1) by simp
    with 1 show ?thesis by (auto simp: frame_resolve intro: frame_trans)
  qed
qed

lemma glob_part_all:
  assumes "plain (basename p)"
  shows "\<forall>x\<in>set (glob w (path_join p ''*.CSV'')). \<exists>n. plain n \<and> x = path_join p n"
  using glob_part_elem [OF assms, of "''*.CSV''" _ w] by auto

lemma frame_ensure_below:
  assumes "path_exists w d" "plain n"
    and "(if c then makedirs w (path_join d n) else (Inr (), w)) = (r, w')"
  shows "frame (resolve w d) w w'"
  using assms by (auto split: if_splits intro: frame_makedirs_below)

lemma frame_cleanup_below:
  assumes "plain n" "(if c then rmdir w (path_join d n) else (Inr (), w)) = (r, w')"
  shows "frame (resolve w d) w w'"
  using assms by (auto split: if_splits intro: frame_rmdir_below)

lemma frame_below:
  "plain n \<Longrightarrow> frame (resolve w (path_join d n)) a b \<Longrightarrow> frame (resolve w d) a b"
  by (rule frame_mono [of _ "resolve w (path_join d n)"]) (simp_all add: resolve_join)

lemma frame_csv_mk:
  assumes "path_exists w dest" "plain (basename p)"
    and "ts = (if cf then path_join dest (basename p) else dest)"
    and "(if cf \<and> \<not> path_exists w ts then makedirs w ts else (Inr (), w)) = (r1, w1)"
  shows "frame (resolve w dest) w w1"
proof (cases cf)
  case True
  with assms(4) [unfolded assms(3)]
  have "(if \<not> path_exists w (path_join dest (basename p))
        then makedirs w (path_join dest (basename p)) else (Inr (), w)) = (r1, w1)"
    by (auto split: if_splits)
  with assms(1,2) show ?thesis by (rule frame_ensure_below)
next
  case False
  with assms(4) show ?thesis by simp
qed

lemma frame_csv_files:
  assumes "path_exists w dest" "plain (basename p)"
    and "ts = (if cf then path_join dest (basename p) else dest)"
    and "(if cf \<and> \<not> path_exists w ts then makedirs w ts else (Inr (), w)) = (r1, w1)"
    and "csv_files_loop w1 ts rn verb sr (glob w1 (path_join p ''*.CSV'')) = (r2, w2)"
  shows "frame (resolve w dest) w w2"
proof -
  have 1: "frame (resolve w dest) w w1" using assms(1-4) by (rule frame_csv_mk)
  have "frame (resolve w1 ts) w1 w2"
    using assms(2) glob_part_all [OF assms(2)] assms(5) by (rule frame_csv_files_loop)
  then have a: "frame (resolve w ts) w1 w2" using 1 by (simp add: frame_resolve)
  have "frame (resolve w dest) w1 w2"
  proof (cases cf)
    case True
    with a assms(3) have "frame (resolve w (path_join dest (basename p))) w1 w2" by simp
    with assms(2) show ?thesis by (rule frame_below)
  next
    case False
    with a assms(3) show ?thesis by simp
  qed
  with 1 show ?thesis by (rule frame_trans)
qed

lemma frame_csv_rm:
  assumes "path_exists w dest" "plain (basename p)"
    and "ts = (if cf then path_join dest (basename p) else dest)"
    and "(if cf \<and> \<not> path_exists w ts then makedirs w ts else (Inr (), w)) = (r1, w1)"
    and "csv_files_loop w1 ts rn verb sr (glob w1 (path_join p ''*.CSV'')) = (r2, w2)"
    and "(if sr \<and> cf then rmdir w2 ts else (Inr (), w2)) = (r3, w3)"
  shows "frame (resolve w dest) w w3"
proof -
  have 2: "frame (resolve w dest) w w2" using assms(1-5) by (rule frame_csv_files)
  have "frame (resolve w2 dest) w2 w3"
  proof (cases cf)
    case True
    with assms(6) [unfolded assms(3)]
    have "(if sr then rmdir w2 (path_join dest (basename p)) else (Inr (), w2)) = (r3, w3)"
      by (auto split: if_splits)
    with assms(2) show ?thesis by (rule frame_cleanup_below)
  next
    case False
    with assms(6) show ?thesis by simp
  qed
  then have "frame (resolve w dest) w2 w3" using 2 by (simp add: frame_resolve)
  with 2 show ?thesis by (rule frame_trans)
qed

lemma frame_csv_loop:
  assumes "path_exists w dest" "\<forall>p\<in>set ps. plain (basename p)"
    and "csv_loop w dest cf rn verb sr ps = (r, w')"
  shows "frame (resolve w dest) w w'"
  using assms
proof (induction ps arbitrary: w)
  case Nil
  then show ?case by simp
next
  case (Cons p ps)
  have pb: "plain (basename p)" using Cons.prems(2) by simp
  from Cons.prems(3) show ?case
  proof (cases rule: csv_loop_step)
    case (mk_fail e)
    then show ?thesis using frame_csv_mk [OF Cons.prems(1) pb refl] by blast
  next
    case (files_fail w1 e)
    then show ?thesis using frame_csv_files [OF Cons.prems(1) pb refl] by blast
  next
    case (rm_fail w1 w2 e)
    then show ?thesis using frame_csv_rm [OF Cons.prems(1) pb refl] by blast
  next
    case (ok w1 w2 w3)
    then have 3: "frame (resolve w dest) w w3"
      using frame_csv_rm [OF Cons.prems(1) pb refl] by blast
    then have "path_exists w3 dest" using Cons.prems(1) by (simp add: frame_path_exists)
    then have "frame (resolve w3 dest) w3 w'" using Cons.prems(2) ok(4) Cons.IH by simp
    with 3 show ?thesis by (auto simp: frame_resolve intro: frame_trans)
  qed
qed

lemma frame_save_jpgs:
  assumes "path_exists w dest" "\<forall>p\<in>set (exercise_parts self). plain (basename p)"
    and "save_jpgs self w dest verb sr = (r, w')"
  shows "frame (resolve w dest) w w'"
proof -
  let ?t = "resolve w dest"
  let ?ts = "path_join dest ''jpgs''"
  have mk: "frame ?t w w1"
    if "(if \<not> path_exists w ?ts then makedirs w ?ts else (Inr (), w)) = (r1, w1)" for r1 w1
    using assms(1) plain_jpgs that by (rule frame_ensure_below)
  have lp: "frame ?t w1 w2"
    if "frame ?t w w1" "jpg_loop w1 ?ts verb sr (exercise_parts self) = (r2, w2)" for w1 r2 w2
  proof -
    have "frame (resolve w1 ?ts) w1 w2" using assms(2) that(2) by (rule frame_jpg_loop)
    then have "frame (resolve w ?ts) w1 w2" using that(1) by (simp add: frame_resolve)
    with plain_jpgs show ?thesis by (rule frame_below)
  qed
  from assms(3) show ?thesis
  proof (cases rule: save_jpgs_step)
    case (mk_fail e)
    from mk_fail(1) show ?thesis by (rule mk)
  next
    case (loop_fail w1 e)
    have 1: "frame ?t w w1" using loop_fail(1) by (rule mk)
    have "frame ?t w1 w'" using 1 loop_fail(2) by (rule lp)
    with 1 show ?thesis by (rule frame_trans)
  next
    case (ok w1 w2)
    have 1: "frame ?t w w1" using ok(1) by (rule mk)
    have 2: "frame ?t w1 w2" using 1 ok(2) by (rule lp)
    have 12: "frame ?t w w2" using 1 2 by (rule frame_trans)
    have "frame (resolve w2 dest) w2 w'"
      using plain_jpgs ok(3) by (rule frame_cleanup_below)
    then have "frame ?t w2 w'" using 12 by (simp add: frame_resolve)
    with 12 show ?thesis by (rule frame_trans)
  qed
qed

lemma frame_copy_scope_data:
  assumes "\<forall>p\<in>set (exercise_parts self). plain (basename p)"
    and "copy_scope_data self w dest cf rn sj verb sr = (r, w')"
  shows "frame (resolve w dest) w w'"
  using assms(2)
proof (cases rule: copy_scope_data_cases)
  case no_dest
  then show ?thesis by simp
next
  case (jpg_fail e)
  then show ?thesis using assms(1) by (auto split: if_splits intro: frame_save_jpgs)
next
  case (ok w1)
  then have 1: "frame (resolve w dest) w w1"
    using assms(1) by (auto split: if_splits intro: frame_save_jpgs)
  then have "path_exists w1 dest" using ok(1) by (simp add: frame_path_exists)
  then have "frame (resolve w1 dest) w1 w'" using assms(1) ok(3) by (rule frame_csv_loop)
  with 1 show ?thesis by (auto simp: frame_resolve intro: frame_trans)
qed

lemma init_parts_plain:
  "OscilloscopeDataCopier_init w0 dname = Inr self \<Longrightarrow> \<forall>p\<in>set (exercise_parts self). plain (basename p)"
  using init_parts [of w0 dname self] by blast

section \<open>Running the copy again\<close>

subsection \<open>Kinds of nodes\<close>

lemma kind_simps [simp]:
  "kind None = 0" "kind (Some Dir) = 1" "kind (Some (File c)) = 2"
  by (simp_all add: kind_def)

lemma kind_0_iff [simp]: "(kind x = 0) = (x = None)"
  by (auto simp: kind_def split: option.splits node.splits)

lemma kind_1_iff [simp]: "(kind x = Suc 0) = (x = Some Dir)"
  by (auto simp: kind_def split: option.splits node.splits)

lemma kind_2_iff: "(kind x = 2) = (\<exists>c. x = Some (File c))"
  by (auto simp: kind_def split: option.splits node.splits)

lemma grows_refl [simp]: "grows w w"
  by (simp add: grows_def)

lemma grows_trans: "grows a b \<Longrightarrow> grows b c \<Longrightarrow> grows a c"
  unfolding grows_def
proof (intro allI)
  fix k
  assume a: "\<forall>k. lookup a k = None \<or> kind (lookup b k) = kind (lookup a k)"
    and b: "\<forall>k. lookup b k = None \<or> kind (lookup c k) = kind (lookup b k)"
  show "lookup a k = None \<or> kind (lookup c k) = kind (lookup a k)"
  proof (cases "lookup a k = None")
    case True
    then show ?thesis by simp
  next
    case False
    from a have "lookup a k = None \<or> kind (lookup b k) = kind (lookup a k)" by (rule spec)
    with False have ab: "kind (lookup b k) = kind (lookup a k)" by auto
    have "lookup b k \<noteq> None"
    proof
      assume "lookup b k = None"
      with ab have "kind (lookup a k) = 0" by simp
      with False show False by simp
    qed
    moreover from b have "lookup b k = None \<or> kind (lookup c k) = kind (lookup b k)" by (rule spec)
    ultimately have "kind (lookup c k) = kind (lookup b k)" by auto
    with ab show ?thesis by simp
  qed
qed

lemma grows_kind: "grows s w \<Longrightarrow> lookup s k \<noteq> None \<Longrightarrow> kind (lookup w k) = kind (lookup s k)"
proof -
  assume g: "grows s w" and n: "lookup s k \<noteq> None"
  from g have "lookup s k = None \<or> kind (lookup w k) = kind (lookup s k)"
    unfolding grows_def by (rule spec)
  with n show ?thesis by auto
qed

lemma grows_Dir: "grows s w \<Longrightarrow> lookup s k = Some Dir \<Longrightarrow> lookup w k = Some Dir"
  using grows_kind [of s w k] by simp

lemma grows_File: "grows s w \<Longrightarrow> lookup s k = Some (File c) \<Longrightarrow> \<exists>c'. lookup w k = Some (File c')"
  using grows_kind [of s w k] by (simp add: kind_2_iff)

lemma grows_put_Dir: "lookup w k = None \<Longrightarrow> grows w (put w k Dir)"
  by (auto simp: grows_def lookup_put)

lemma grows_put_File: "lookup w k \<noteq> Some Dir \<Longrightarrow> grows w (put w k (File c))"
proof -
  assume a: "lookup w k \<noteq> Some Dir"
  show ?thesis unfolding grows_def
  proof (intro allI)
    fix k'
    show "lookup w k' = None \<or> kind (lookup (put w k (File c)) k') = kind (lookup w k')"
    proof (cases "k' = k \<and> k \<noteq> []")
      case True
      with a show ?thesis
        by (cases "lookup w k") (auto simp: lookup_put kind_def split: node.splits)
    next
      case False
      then show ?thesis by (auto simp: lookup_put)
    qed
  qed
qed

subsection \<open>The first run only adds\<close>

lemma grows_mkdir_key: "mkdir_key w k = (r, w') \<Longrightarrow> grows w w'"
  using mkdir_key_cases [of w k r w'] by (auto simp: grows_put_Dir)

lemma grows_makedirs_key: "makedirs_key w k = (r, w') \<Longrightarrow> grows w w'"
proof (induction w k arbitrary: r w' rule: makedirs_key.induct)
  case (1 w k)
  show ?case
  proof (cases "k \<noteq> [] \<and> lookup w (butlast k) = None")
    case True
    obtain r1 w1 where m: "makedirs_key w (butlast k) = (r1, w1)" by (cases "makedirs_key w (butlast k)")
    with True 1 have s1: "grows w w1" by blast
    from "1.prems" True m have "mkdir_key w1 k = (r, w') \<or> w' = w1"
      by (subst (asm) makedirs_key.simps) (auto split: sum.splits if_splits)
    then have "grows w1 w'" by (auto simp: grows_mkdir_key)
    with s1 show ?thesis by (rule grows_trans)
  next
    case False
    with "1.prems" have "mkdir_key w k = (r, w')"
      by (subst (asm) makedirs_key.simps) simp
    then show ?thesis by (rule grows_mkdir_key)
  qed
qed

lemma grows_ensure:
  "(if c then makedirs w ts else (Inr (), w)) = (r, w1) \<Longrightarrow> grows w w1"
  by (auto simp: makedirs_def split: if_splits dest: grows_makedirs_key)

lemma grows_shutil_copy: "shutil_copy w src dst = (r, w') \<Longrightarrow> grows w w'"
  using shutil_copy_cases [of w src dst r w'] by (auto simp: grows_put_File)

lemma grows_save: "save w f s verb False = (r, w') \<Longrightarrow> grows w w'"
  by (auto simp: save_def split: if_splits dest: grows_shutil_copy)

lemma grows_jpg_loop: "jpg_loop w s verb False ps = (r, w') \<Longrightarrow> grows w w'"
proof (induction ps arbitrary: w)
  case Nil
  then show ?case by simp
next
  case (Cons p ps)
  from Cons.prems show ?case
  proof (cases rule: jpg_loop_Cons_cases)
    case (save_fail x xs f e)
    then show ?thesis by (auto dest: grows_save)
  next
    case (ok x xs f w1)
    then have "grows w w1" "grows w1 w'" using Cons.IH by (auto dest: grows_save)
    then show ?thesis by (rule grows_trans)
  qed simp_all
qed

lemma grows_csv_files_loop: "csv_files_loop w s rn verb False xs = (r, w') \<Longrightarrow> grows w w'"
proof (induction xs arbitrary: w)
  case Nil
  then show ?case by simp
next
  case (Cons x xs)
  from Cons.prems show ?case
  proof (cases rule: csv_files_loop_Cons_cases)
    case (save_fail f e)
    then show ?thesis by (auto dest: grows_save)
  next
    case (ok f w1)
    then have "grows w w1" "grows w1 w'" using Cons.IH by (auto dest: grows_save)
    then show ?thesis by (rule grows_trans)
  qed simp_all
qed

lemma grows_csv_loop: "csv_loop w dest cf rn verb False ps = (r, w') \<Longrightarrow> grows w w'"
proof (induction ps arbitrary: w)
  case Nil
  then show ?case by simp
next
  case (Cons p ps)
  from Cons.prems show ?case
  proof (cases rule: csv_loop_step)
    case (mk_fail e)
    from mk_fail(1) show ?thesis by (rule grows_ensure)
  next
    case (files_fail w1 e)
    then have "grows w w1" "grows w1 w'" by (auto dest: grows_ensure grows_csv_files_loop)
    then show ?thesis by (rule grows_trans)
  next
    case (rm_fail w1 w2 e)
    then show ?thesis by simp
  next
    case (ok w1 w2 w3)
    then have "grows w w1" "grows w1 w2" "w3 = w2" "grows w3 w'"
      using Cons.IH by (auto dest: grows_ensure grows_csv_files_loop)
    then show ?thesis by (auto intro: grows_trans)
  qed
qed

lemma grows_save_jpgs: "save_jpgs self w dest verb False = (r, w') \<Longrightarrow> grows w w'"
proof -
  assume "save_jpgs self w dest verb False = (r, w')"
  then show ?thesis
  proof (cases rule: save_jpgs_step)
    case (mk_fail e)
    from mk_fail(1) show ?thesis by (rule grows_ensure)
  next
    case (loop_fail w1 e)
    then have "grows w w1" "grows w1 w'" by (auto dest: grows_ensure grows_jpg_loop)
    then show ?thesis by (rule grows_trans)
  next
    case (ok w1 w2)
    then have "grows w w1" "grows w1 w2" "w' = w2" by (auto dest: grows_ensure grows_jpg_loop)
    then show ?thesis by (auto intro: grows_trans)
  qed
qed

subsection \<open>The second run follows the first\<close>

lemma frame_sym: "frame t a b \<Longrightarrow> frame t b a"
  by (simp add: frame_def)

lemma rerun_frame: "rerun t w s s' \<Longrightarrow> frame t s s'"
  by (simp add: rerun_def)

lemma rerun_resolve: "rerun t w s s' \<Longrightarrow> resolve s' p = resolve s p"
  by (auto dest: rerun_frame frame_resolve)

lemma rerun_kind: "rerun t w s s' \<Longrightarrow> kind (lookup s' k) = kind (lookup w k)"
  by (simp add: rerun_def)

lemma rerun_outside:
  "rerun t w s s' \<Longrightarrow> \<not> strict_prefix t k \<Longrightarrow> lookup s' k = lookup s k"
  by (auto dest: rerun_frame frame_lookup)

lemma rerun_present:
  assumes "rerun t w s s'" "grows s w" "lookup s k \<noteq> None"
  shows "kind (lookup s' k) = kind (lookup s k)"
  using rerun_kind [OF assms(1), of k] grows_kind [OF assms(2,3)] by simp

lemma rerun_Dir:
  assumes "rerun t w s s'" "grows s w" "lookup s k = Some Dir"
  shows "lookup s' k = Some Dir"
  using rerun_present [OF assms(1,2), of k] assms(3) by simp

lemma rerun_exists:
  assumes "rerun t w s s'" "grows s w" "path_exists s p"
  shows "path_exists s' p"
proof -
  from assms(3) have p: "p \<noteq> []" and l: "lookup s (resolve s p) \<noteq> None"
    by (simp_all add: path_exists_def)
  from rerun_present [OF assms(1,2) l] l have "lookup s' (resolve s p) \<noteq> None"
    by (metis kind_0_iff)
  with p show ?thesis by (simp add: path_exists_def rerun_resolve [OF assms(1)])
qed

lemma rerun_final:
  assumes "rerun t w w s'"
  shows "\<forall>k. lookup s' k = lookup w k" and "map fst (files s') = map fst (files w)"
  using assms by (auto simp: rerun_def)

lemma rerun_start: "frame t w w1 \<Longrightarrow> rerun t w1 w w1"
  by (simp add: rerun_def)

lemma keys_put_present:
  assumes "lookup w k \<noteq> None" "k \<noteq> []"
  shows "map fst (files (put w k v)) = map fst (files w)"
proof -
  from assms have "k \<in> fst ` set (files w)" by (simp add: lookup_None_iff)
  then show ?thesis by (simp add: put_def update_keys)
qed

lemma frame_put_both:
  assumes "frame t s s'" "strict_prefix t k"
  shows "frame t (put s k v) (put s' k v)"
proof -
  have "frame t (put s k v) s" using frame_put [OF assms(2), of s v] by (rule frame_sym)
  moreover have "frame t s' (put s' k v)" using assms(2) by (rule frame_put)
  ultimately show ?thesis using assms(1) by (blast intro: frame_trans)
qed

lemma rerun_put:
  assumes "rerun t w s s'" "strict_prefix t k" "grows (put s k (File c)) w" "lookup s k \<noteq> Some Dir"
  shows "rerun t w (put s k (File c)) (put s' k (File c))"
proof -
  have k: "k \<noteq> []" using assms(4) by (auto simp: lookup_def)
  have "lookup (put s k (File c)) k = Some (File c)" using k by (simp add: lookup_put)
  with assms(3) have kw: "kind (lookup w k) = 2"
    using grows_kind [of "put s k (File c)" w k] by simp
  with assms(1) have ks: "kind (lookup s' k) = 2" by (simp add: rerun_kind)
  then have "lookup s' k \<noteq> None" by (auto simp: kind_2_iff)
  then have keys: "map fst (files (put s' k (File c))) = map fst (files s')"
    using k by (rule keys_put_present)
  show ?thesis unfolding rerun_def
  proof (intro conjI allI)
    show "frame t (put s k (File c)) (put s' k (File c))"
      using rerun_frame [OF assms(1)] assms(2) by (rule frame_put_both)
  next
    fix k'
    show "lookup (put s' k (File c)) k' = lookup (put s k (File c)) k'
        \<or> lookup (put s' k (File c)) k' = lookup w k'"
      using assms(1) by (auto simp: lookup_put rerun_def)
  next
    fix k'
    show "kind (lookup (put s' k (File c)) k') = kind (lookup w k')"
      using kw k rerun_kind [OF assms(1), of k'] by (auto simp: lookup_put)
  next
    show "map fst (files (put s' k (File c))) = map fst (files w)"
      using keys assms(1) by (simp add: rerun_def)
  qed
qed

lemma rerun_mkdir:
  assumes "rerun t w s s'" "strict_prefix t k" "grows (put s k Dir) w" "lookup s k = None"
  shows "rerun t w (put s k Dir) s'"
proof -
  have k: "k \<noteq> []" using assms(4) by (auto simp: lookup_def)
  have "lookup (put s k Dir) k = Some Dir" using k by (simp add: lookup_put)
  with assms(3) have "lookup w k = Some Dir" by (rule grows_Dir)
  with assms(1) have ks: "lookup s' k = Some Dir"
    using rerun_kind [OF assms(1), of k] by simp
  show ?thesis unfolding rerun_def
  proof (intro conjI allI)
    have "frame t (put s k Dir) s" using frame_put [OF assms(2), of s Dir] by (rule frame_sym)
    then show "frame t (put s k Dir) s'" using rerun_frame [OF assms(1)] by (rule frame_trans)
  next
    fix k'
    show "lookup s' k' = lookup (put s k Dir) k' \<or> lookup s' k' = lookup w k'"
      using assms(1) ks k by (auto simp: lookup_put rerun_def)
  next
    fix k'
    show "kind (lookup s' k') = kind (lookup w k')" using assms(1) by (rule rerun_kind)
  next
    show "map fst (files s') = map fst (files w)" using assms(1) by (simp add: rerun_def)
  qed
qed

lemma sim_save:
  assumes sv: "save s f d verb False = (Inr (), s1)"
    and g: "grows s1 w" and rr: "rerun t w s s'"
    and src: "\<not> strict_prefix t (resolve s (location f))"
    and below: "prefix t (resolve s d)"
    and pl: "plain (name f)" "plain (basename (location f))"
  shows "\<exists>s1'. save s' f d verb False = (Inr (), s1') \<and> rerun t w s1 s1'"
proof -
  let ?src = "location f"
  let ?dst = "path_join d (name f)"
  let ?cd = "copy_dst s ?src ?dst"
  let ?kd = "resolve s ?cd"
  note rs = rerun_resolve [OF rr]
  from save_cases [OF sv] have ex: "path_exists s d"
    and sc: "shutil_copy s ?src ?dst = (Inr (), s1)" by auto
  from shutil_copy_cases [OF sc] obtain c where
    c: "lookup s (resolve s ?src) = Some (File c)" "s1 = put s ?kd (File c)"
    and ne: "?src \<noteq> []" "?cd \<noteq> []" "?kd \<noteq> resolve s ?src"
    and nd: "lookup s ?kd \<noteq> Some Dir" and par: "lookup s (butlast ?kd) = Some Dir"
    by auto
  have gs: "grows s w" using grows_shutil_copy [OF sc] g by (rule grows_trans)
  have kne: "?kd \<noteq> []" using nd by (auto simp: lookup_def)
  have inside: "strict_prefix t ?kd"
  proof -
    from resolve_copy_dst [OF pl, of s d]
    have "strict_prefix (resolve s d) ?kd" by auto
    with below show ?thesis by (meson prefix_order.le_less_trans)
  qed
  have k2: "kind (lookup w ?kd) = 2"
    using grows_kind [OF g, of ?kd] c(2) kne by (simp add: lookup_put)
  have dne: "?dst \<noteq> []" using pl(1) by (rule path_join_nonempty)
  have isd: "isdir s' ?dst = isdir s ?dst"
  proof (cases "isdir s ?dst")
    case True
    then have "lookup s (resolve s ?dst) = Some Dir" by (simp add: isdir_def)
    then have "lookup s' (resolve s ?dst) = Some Dir" using rr gs by (auto intro: rerun_Dir)
    with True dne show ?thesis by (simp add: isdir_def rs)
  next
    case False
    then have "?cd = ?dst" by (simp add: copy_dst_def)
    with k2 have "kind (lookup s' (resolve s ?dst)) = 2" using rerun_kind [OF rr] by simp
    then have "lookup s' (resolve s ?dst) \<noteq> Some Dir" by auto
    with False show ?thesis by (simp add: isdir_def rs)
  qed
  then have cd: "copy_dst s' ?src ?dst = ?cd" by (simp add: copy_dst_def)
  have ex': "path_exists s' d" using rr gs ex by (rule rerun_exists)
  have srcl: "lookup s' (resolve s ?src) = Some (File c)"
    using rerun_outside [OF rr src] c(1) by simp
  have ndl: "lookup s' ?kd \<noteq> Some Dir"
    using rerun_kind [OF rr, of ?kd] k2 by auto
  have parl: "lookup s' (butlast ?kd) = Some Dir" using rr gs par by (rule rerun_Dir)
  have "write_file s' ?cd c = (Inr (), put s' ?kd (File c))"
    using ne(2) ndl parl
    by (cases "lookup s' ?kd") (auto simp: write_file_def Let_def rs split: node.splits)
  then have "copyfile s' ?src ?cd = (Inr (), put s' ?kd (File c))"
    using ne srcl by (simp add: copyfile_def rs)
  then have "shutil_copy s' ?src ?dst = (Inr (), put s' ?kd (File c))"
    using cd by (simp add: shutil_copy_def copy_dst_def)
  then have 1: "save s' f d verb False = (Inr (), put s' ?kd (File c))"
    using ex' by (simp add: save_def)
  have "rerun t w (put s ?kd (File c)) (put s' ?kd (File c))"
    using rr inside g [unfolded c(2)] nd by (rule rerun_put)
  with 1 c(2) show ?thesis by simp
qed

subsection \<open>What the second run reads from the drive\<close>

lemma filter_keys_outside:
  assumes "\<And>k. Q k \<Longrightarrow> P k"
  shows "filter Q (map fst (filter (\<lambda>e. P (fst e)) al)) = filter Q (map fst al)"
  using assms by (induction al) auto

lemma frame_children:
  assumes "frame t w w'" "\<not> prefix t d"
  shows "children w' d = children w d"
proof -
  let ?Q = "\<lambda>k'. k' \<noteq> [] \<and> butlast k' = d \<and> plain (last k')"
  let ?P = "\<lambda>k. \<not> strict_prefix t k"
  have qp: "?P k" if "?Q k" for k
  proof
    assume "strict_prefix t k"
    then obtain z zs where "k = t @ z # zs" by (auto simp: strict_prefix_def prefix_def) (metis list.exhaust append_Nil2)
    then have "prefix t (butlast k)" by (simp add: butlast_append)
    moreover from that have "butlast k = d" by simp
    ultimately show False using assms(2) by simp
  qed
  have "children w' d = filter ?Q (map fst (filter (\<lambda>e. ?P (fst e)) (files w')))"
    unfolding children_def using qp by (intro filter_keys_outside [symmetric]) blast
  also have "\<dots> = filter ?Q (map fst (filter (\<lambda>e. ?P (fst e)) (files w)))"
    using assms(1) by (simp add: frame_def)
  also have "\<dots> = children w d"
    unfolding children_def using qp by (intro filter_keys_outside) blast
  finally show ?thesis .
qed

lemma not_prefix_not_strict: "\<not> prefix t d \<Longrightarrow> \<not> strict_prefix t d"
  by (simp add: strict_prefix_def)

lemma frame_glob1:
  assumes "frame t w w'" "d \<noteq> []" "\<not> prefix t (resolve w d)"
  shows "glob1 w' d pat = glob1 w d pat"
  using assms frame_children [OF assms(1,3)] frame_lookup [OF assms(1) not_prefix_not_strict [OF assms(3)]]
  by (simp add: glob1_def listdir_def frame_resolve)

lemma frame_glob_part:
  assumes "frame t w w'" "plain (basename p)" "\<not> prefix t (resolve w p)"
    and "CHR ''/'' \<notin> set pat" "pat \<noteq> []" "has_magic pat"
  shows "glob w' (path_join p pat) = glob w (path_join p pat)"
  using frame_glob1 [OF assms(1) basename_plain_path(1) [OF assms(2)] assms(3)]
  by (simp add: glob_part [OF assms(2,4,5,6)])

lemma not_strict_prefix_snoc: "\<not> prefix t d \<Longrightarrow> \<not> strict_prefix t (d @ [n])"
  by (auto simp: strict_prefix_def)

lemma frame_source_exists:
  assumes "frame t w w'" "plain n" "\<not> prefix t (resolve w p)"
  shows "path_exists w' (path_join p n) = path_exists w (path_join p n)"
  using frame_lookup [OF assms(1) not_strict_prefix_snoc [OF assms(3), of n]] assms(2)
  by (simp add: path_exists_def frame_resolve [OF assms(1)] resolve_join)

lemma JPGFile_init_cong:
  "path_exists w' x = path_exists w x \<Longrightarrow> JPGFile_init w' x = JPGFile_init w x"
  by (simp add: JPGFile_init_def File_init_def)

lemma CSVFile_init_cong:
  "path_exists w' x = path_exists w x \<Longrightarrow> CSVFile_init w' x rn = CSVFile_init w x rn"
  by (simp add: CSVFile_init_def File_init_def)

subsection \<open>The loops, run again\<close>

lemma sim_jpg_loop:
  assumes "jpg_loop s d verb False ps = (Inr (), s1)" "grows s1 w" "rerun t w s s'"
    and "prefix t (resolve s d)"
    and "\<forall>p\<in>set ps. plain (basename p) \<and> \<not> prefix t (resolve s p)"
  shows "\<exists>s1'. jpg_loop s' d verb False ps = (Inr (), s1') \<and> rerun t w s1 s1'"
  using assms
proof (induction ps arbitrary: s s')
  case Nil
  then show ?case by simp
next
  case (Cons p ps)
  have pb: "plain (basename p)" and np: "\<not> prefix t (resolve s p)" using Cons.prems(5) by simp_all
  note fr = rerun_frame [OF Cons.prems(3)]
  from Cons.prems(1) show ?case
  proof (cases rule: jpg_loop_Cons_cases)
    case (ok x xs f sa)
    from ok(1) obtain n where n: "plain n" "x = path_join p n"
      using glob_part_elem [OF pb, of "''*.JPG''" x s] by auto
    from JPGFile_init_part [OF pb n(1)] ok(2) n(2)
    have f: "location f = path_join p n" "name f = lower (basename p) @ ''.jpg''" by auto
    have pl: "plain (name f)" "plain (basename (location f))"
      using f pb n(1) by (simp_all add: plain_jpg_name plain_basename_no_slash basename_join)
    have src: "\<not> strict_prefix t (resolve s (location f))"
      using np n(1) f(1) by (simp add: resolve_join not_strict_prefix_snoc)
    have ga: "grows sa w" using grows_jpg_loop [OF ok(4)] Cons.prems(2) by (rule grows_trans)
    from sim_save [OF ok(3) ga Cons.prems(3) src Cons.prems(4) pl]
    obtain sa' where sa': "save s' f d verb False = (Inr (), sa')" "rerun t w sa sa'" by auto
    have fs: "frame (resolve s d) s sa" using pl ok(3) by (rule frame_save)
    have res: "resolve sa q = resolve s q" for q using fs by (rule frame_resolve)
    from Cons.IH [OF ok(4) Cons.prems(2) sa'(2)] Cons.prems(4,5)
    obtain s1' where s1': "jpg_loop sa' d verb False ps = (Inr (), s1')" "rerun t w s1 s1'"
      by (auto simp: res)
    have g: "glob s' (path_join p ''*.JPG'') = x # xs"
      using frame_glob_part [OF fr pb np, of "''*.JPG''"] ok(1) by simp
    have i: "JPGFile_init s' x = Inr f"
      using JPGFile_init_cong [OF frame_source_exists [OF fr n(1) np]] ok(2) n(2) by simp
    from g i sa'(1) s1' show ?thesis by auto
  qed simp_all
qed

lemma sim_csv_files_loop:
  assumes "csv_files_loop s d rn verb False xs = (Inr (), s1)" "grows s1 w" "rerun t w s s'"
    and "prefix t (resolve s d)"
    and "plain (basename p)" "\<not> prefix t (resolve s p)"
    and "\<forall>x\<in>set xs. \<exists>n. plain n \<and> x = path_join p n"
  shows "\<exists>s1'. csv_files_loop s' d rn verb False xs = (Inr (), s1') \<and> rerun t w s1 s1'"
  using assms(1,2,3,4,6,7)
proof (induction xs arbitrary: s s')
  case Nil
  then show ?case by simp
next
  case (Cons x xs)
  note pb = assms(5)
  note np = Cons.prems(5)
  from Cons.prems(6) obtain n where n: "plain n" "x = path_join p n" by auto
  note fr = rerun_frame [OF Cons.prems(3)]
  from Cons.prems(1) show ?case
  proof (cases rule: csv_files_loop_Cons_cases)
    case (ok f sa)
    from CSVFile_init_part [OF pb n(1), of s rn f] ok(1) n(2)
    have f: "location f = path_join p n"
      "name f = (if rn then lower (basename p @ ''.'' @ last7 n) else n)" by auto
    have pl: "plain (name f)" "plain (basename (location f))"
      using f pb n(1) plain_csv_name [OF pb n(1)] by (simp_all add: basename_join)
    have src: "\<not> strict_prefix t (resolve s (location f))"
      using np n(1) f(1) by (simp add: resolve_join not_strict_prefix_snoc)
    have ga: "grows sa w" using grows_csv_files_loop [OF ok(3)] Cons.prems(2) by (rule grows_trans)
    from sim_save [OF ok(2) ga Cons.prems(3) src Cons.prems(4) pl]
    obtain sa' where sa': "save s' f d verb False = (Inr (), sa')" "rerun t w sa sa'" by auto
    have fs: "frame (resolve s d) s sa" using pl ok(2) by (rule frame_save)
    have res: "resolve sa q = resolve s q" for q using fs by (rule frame_resolve)
    from Cons.IH [OF ok(3) Cons.prems(2) sa'(2)] Cons.prems(4,5,6)
    obtain s1' where s1': "csv_files_loop sa' d rn verb False xs = (Inr (), s1')" "rerun t w s1 s1'"
      by (auto simp: res)
    have i: "CSVFile_init s' x rn = Inr f"
      using CSVFile_init_cong [OF frame_source_exists [OF fr n(1) np]] ok(1) n(2) by simp
    from i sa'(1) s1' show ?thesis by auto
  qed simp_all
qed

lemma sim_ensure:
  assumes "(if \<not> path_exists s (path_join dest n) then makedirs s (path_join dest n) else (Inr (), s))
      = (Inr (), sa)"
    and "path_exists s dest" "plain n" "grows sa w" "rerun (resolve s dest) w s s'"
  shows "path_exists s' (path_join dest n) \<and> rerun (resolve s dest) w sa s'"
proof (cases "path_exists s (path_join dest n)")
  case True
  with assms(1) have sa: "sa = s" by simp
  with assms(4,5) True show ?thesis by (auto intro: rerun_exists)
next
  case False
  let ?k = "resolve s dest @ [n]"
  from False assms(1) have "makedirs s (path_join dest n) = (Inr (), sa)" by simp
  then have "mkdir_key s ?k = (Inr (), sa)" using assms(2,3) by (simp add: makedirs_below)
  with mkdir_key_cases [of s ?k "Inr ()" sa]
  have sa: "sa = put s ?k Dir" and none: "lookup s ?k = None" by auto
  have rr: "rerun (resolve s dest) w (put s ?k Dir) s'"
    using assms(5) strict_prefix_snoc assms(4) [unfolded sa] none by (rule rerun_mkdir)
  have "lookup (put s ?k Dir) ?k = Some Dir" by (simp add: lookup_put)
  then have "lookup w ?k = Some Dir" using assms(4) [unfolded sa] by (auto intro: grows_Dir)
  then have "lookup s' ?k = Some Dir" using rerun_kind [OF assms(5), of ?k] by simp
  then have "path_exists s' (path_join dest n)"
    using assms(3) by (simp add: path_exists_def path_join_nonempty resolve_join rerun_resolve [OF assms(5)])
  with rr sa show ?thesis by simp
qed

lemma csv_loop_Cons_ok:
  assumes "ts = (if cf then path_join dest (basename p) else dest)"
    and "(if cf \<and> \<not> path_exists w ts then makedirs w ts else (Inr (), w)) = (Inr (), w1)"
    and "csv_files_loop w1 ts rn verb sr (glob w1 (path_join p ''*.CSV'')) = (Inr (), w2)"
    and "(if sr \<and> cf then rmdir w2 ts else (Inr (), w2)) = (Inr (), w3)"
  shows "csv_loop w dest cf rn verb sr (p # ps) = csv_loop w3 dest cf rn verb sr ps"
  using assms(2,3,4) unfolding assms(1) by (simp add: Let_def)

lemma sim_csv_step:
  assumes "ts = (if cf then path_join dest (basename p) else dest)"
    and "(if cf \<and> \<not> path_exists s ts then makedirs s ts else (Inr (), s)) = (Inr (), sa)"
    and "path_exists s dest" "plain (basename p)" "grows sa w" "rerun (resolve s dest) w s s'"
  shows "(if cf \<and> \<not> path_exists s' ts then makedirs s' ts else (Inr (), s')) = (Inr (), s')
         \<and> rerun (resolve s dest) w sa s'"
proof (cases cf)
  case True
  with assms(2) [unfolded assms(1)]
  have "(if \<not> path_exists s (path_join dest (basename p))
        then makedirs s (path_join dest (basename p)) else (Inr (), s)) = (Inr (), sa)"
    by (auto split: if_splits)
  from sim_ensure [OF this assms(3,4,5,6)] True assms(1) show ?thesis by simp
next
  case False
  with assms(2,6) show ?thesis by simp
qed

lemma prefix_to_save:
  "plain b \<Longrightarrow> prefix (resolve s dest) (resolve s (if cf then path_join dest b else dest))"
  by (simp add: resolve_join)

lemma sim_csv_loop:
  assumes "csv_loop s dest cf rn verb False ps = (Inr (), s1)" "grows s1 w"
    and "rerun (resolve s dest) w s s'" "path_exists s dest"
    and "\<forall>p\<in>set ps. plain (basename p) \<and> \<not> prefix (resolve s dest) (resolve s p)"
  shows "\<exists>s1'. csv_loop s' dest cf rn verb False ps = (Inr (), s1') \<and> rerun (resolve s dest) w s1 s1'"
  using assms
proof (induction ps arbitrary: s s')
  case Nil
  then show ?case by simp
next
  case (Cons p ps)
  let ?t = "resolve s dest"
  let ?ts = "if cf then path_join dest (basename p) else dest"
  have pb: "plain (basename p)" and np: "\<not> prefix ?t (resolve s p)" using Cons.prems(5) by simp_all
  from Cons.prems(1) show ?case
  proof (cases rule: csv_loop_step)
    case (ok sa sb sc)
    have sc: "sc = sb" using ok(3) by simp
    have gb: "grows sb w" using grows_csv_loop [OF ok(4)] Cons.prems(2) sc by (auto intro: grows_trans)
    have ga: "grows sa w" using grows_csv_files_loop [OF ok(2)] gb by (rule grows_trans)
    from sim_csv_step [OF refl ok(1) Cons.prems(4) pb ga Cons.prems(3)]
    have st: "(if cf \<and> \<not> path_exists s' ?ts then makedirs s' ?ts else (Inr (), s')) = (Inr (), s')"
      and ra: "rerun ?t w sa s'" by simp_all
    have fa: "frame ?t s sa" using Cons.prems(4) pb refl ok(1) by (rule frame_csv_mk)
    have fb: "frame ?t s sb" using Cons.prems(4) pb refl ok(1,2) by (rule frame_csv_files)
    have resa: "resolve sa q = resolve s q" for q using fa by (rule frame_resolve)
    have resb: "resolve sb q = resolve s q" for q using fb by (rule frame_resolve)
    have "prefix ?t (resolve sa ?ts)" using prefix_to_save [OF pb, of s dest cf] by (simp add: resa)
    from sim_csv_files_loop [OF ok(2) gb ra this pb _ glob_part_all [OF pb]] np
    obtain sb' where sb': "csv_files_loop s' ?ts rn verb False (glob sa (path_join p ''*.CSV''))
        = (Inr (), sb')" "rerun ?t w sb sb'" by (auto simp: resa)
    have g: "glob s' (path_join p ''*.CSV'') = glob sa (path_join p ''*.CSV'')"
      using frame_glob_part [OF rerun_frame [OF ra] pb, of "''*.CSV''"] np by (simp add: resa)
    have "path_exists sb dest" using fb Cons.prems(4) by (simp add: frame_path_exists)
    with Cons.IH [OF ok(4) [unfolded sc] Cons.prems(2), of sb'] sb'(2) Cons.prems(5)
    obtain s1' where s1': "csv_loop sb' dest cf rn verb False ps = (Inr (), s1')"
      "rerun ?t w s1 s1'" by (auto simp: resb)
    have "csv_loop s' dest cf rn verb False (p # ps) = csv_loop sb' dest cf rn verb False ps"
      using refl st sb'(1) [folded g] by (rule csv_loop_Cons_ok) simp
    with s1' show ?thesis by simp
  qed simp_all
qed

lemma sim_save_jpgs:
  assumes "save_jpgs self s dest verb False = (Inr (), s1)" "grows s1 w"
    and "rerun (resolve s dest) w s s'" "path_exists s dest"
    and "\<forall>p\<in>set (exercise_parts self). plain (basename p) \<and> \<not> prefix (resolve s dest) (resolve s p)"
  shows "\<exists>s1'. save_jpgs self s' dest verb False = (Inr (), s1') \<and> rerun (resolve s dest) w s1 s1'"
  using assms(1)
proof (cases rule: save_jpgs_step)
  case (ok sa sb)
  let ?t = "resolve s dest"
  let ?ts = "path_join dest ''jpgs''"
  have s1: "s1 = sb" using ok(3) by simp
  have gb: "grows sb w" using assms(2) s1 by simp
  have ga: "grows sa w" using grows_jpg_loop [OF ok(2)] gb by (rule grows_trans)
  from sim_ensure [OF ok(1) assms(4) plain_jpgs ga assms(3)]
  have ex: "path_exists s' ?ts" and ra: "rerun ?t w sa s'" by simp_all
  have fa: "frame ?t s sa" using assms(4) plain_jpgs ok(1) by (rule frame_ensure_below)
  have resa: "resolve sa q = resolve s q" for q using fa by (rule frame_resolve)
  have "prefix ?t (resolve sa ?ts)" by (simp add: resa resolve_join)
  from sim_jpg_loop [OF ok(2) gb ra this] assms(5)
  obtain sb' where sb': "jpg_loop s' ?ts verb False (exercise_parts self) = (Inr (), sb')"
    "rerun ?t w sb sb'" by (auto simp: resa)
  have "save_jpgs self s' dest verb False = (Inr (), sb')"
    using ex sb'(1) by (simp add: save_jpgs_def Let_def)
  with sb'(2) s1 show ?thesis by simp
qed simp_all

lemma sim_copy_scope_data:
  assumes "copy_scope_data self s dest cf rn sj verb False = (Inr (), s1)" "grows s1 w"
    and "rerun (resolve s dest) w s s'"
    and "\<forall>p\<in>set (exercise_parts self). plain (basename p) \<and> \<not> prefix (resolve s dest) (resolve s p)"
  shows "\<exists>s1'. copy_scope_data self s' dest cf rn sj verb False = (Inr (), s1')
           \<and> rerun (resolve s dest) w s1 s1'"
  using assms(1)
proof (cases rule: copy_scope_data_cases)
  case (ok sa)
  let ?t = "resolve s dest"
  have pl: "\<forall>p\<in>set (exercise_parts self). plain (basename p)" using assms(4) by simp
  have ga: "grows sa w" using grows_csv_loop [OF ok(3)] assms(2) by (rule grows_trans)
  have gs: "grows s w"
  proof (cases sj)
    case True
    with ok(2) have "grows s sa" by (auto dest: grows_save_jpgs)
    then show ?thesis using ga by (rule grows_trans)
  next
    case False
    with ok(2) ga show ?thesis by simp
  qed
  have ex': "path_exists s' dest" using assms(3) gs ok(1) by (rule rerun_exists)
  have "\<exists>sa'. (if sj then save_jpgs self s' dest verb False else (Inr (), s')) = (Inr (), sa')
      \<and> rerun ?t w sa sa'"
  proof (cases sj)
    case True
    with ok(2) have "save_jpgs self s dest verb False = (Inr (), sa)" by simp
    from sim_save_jpgs [OF this ga assms(3) ok(1) assms(4)] True show ?thesis by simp
  next
    case False
    with ok(2) assms(3) show ?thesis by simp
  qed
  then obtain sa' where sa': "(if sj then save_jpgs self s' dest verb False else (Inr (), s'))
      = (Inr (), sa')" "rerun ?t w sa sa'" by blast
  have fa: "frame ?t s sa"
    using ok(2) pl ok(1) by (auto split: if_splits intro: frame_save_jpgs)
  have resa: "resolve sa q = resolve s q" for q using fa by (rule frame_resolve)
  have "path_exists sa dest" using fa ok(1) by (simp add: frame_path_exists)
  with sim_csv_loop [OF ok(3) assms(2), of sa'] sa'(2) assms(4)
  obtain s1' where s1': "csv_loop sa' dest cf rn verb False (exercise_parts self) = (Inr (), s1')"
    "rerun ?t w s1 s1'" by (auto simp: resa)
  have "copy_scope_data self s' dest cf rn sj verb False = (Inr (), s1')"
    using ex' sa'(1) s1'(1) by (simp add: copy_scope_data_def)
  with s1'(2) show ?thesis by simp
qed simp_all

lemma parts_off_destination:
  assumes "OscilloscopeDataCopier_init w0 dname = Inr self"
    and "\<not> prefix (resolve w (drive_location self)) (resolve w dest)"
    and "\<not> prefix (resolve w dest) (resolve w (drive_location self))"
  shows "\<forall>p\<in>set (exercise_parts self). plain (basename p) \<and> \<not> prefix (resolve w dest) (resolve w p)"
proof
  fix p
  assume "p \<in> set (exercise_parts self)"
  from init_parts [OF assms(1) this, of w]
  have pl: "plain (basename p)"
    and r: "resolve w p = resolve w (drive_location self) @ [basename p]" by simp_all
  have "\<not> prefix (resolve w dest) (resolve w (drive_location self) @ [basename p])"
    using assms(2,3) by (auto simp: prefix_snoc)
  with pl r show "plain (basename p) \<and> \<not> prefix (resolve w dest) (resolve w p)" by simp
qed

section \<open>Saving the JPG files\<close>

subsection \<open>Names and patterns\<close>

lemma fnmatch_literal: "\<not> has_magic p \<Longrightarrow> fnmatch n p = (n = p)"
  by (induction n p rule: fnmatch.induct) (auto simp: has_magic_def)

lemma fnmatch_star_last:
  assumes "\<not> has_magic p" "p \<noteq> []"
  shows "fnmatch n (CHR ''*'' # p) \<Longrightarrow> n \<noteq> [] \<and> last n = last p"
proof (induction n)
  case Nil
  with assms show ?case by (cases p) (auto simp: has_magic_def)
next
  case (Cons c cs)
  from Cons.prems have "fnmatch (c # cs) p \<or> fnmatch cs (CHR ''*'' # p)" by simp
  then show ?case
  proof
    assume "fnmatch (c # cs) p"
    with assms(1) have "c # cs = p" by (simp add: fnmatch_literal)
    then show ?thesis by auto
  next
    assume "fnmatch cs (CHR ''*'' # p)"
    with Cons.IH have "cs \<noteq> [] \<and> last cs = last p" by simp
    then show ?thesis by simp
  qed
qed

lemma fnmatch_JPG_last: "fnmatch n ''*.JPG'' \<Longrightarrow> n \<noteq> [] \<and> last n = CHR ''G''"
  using fnmatch_star_last [of "''.JPG''" n] by (simp add: has_magic_def)

lemma fnmatch_CSV_last: "fnmatch n ''*.CSV'' \<Longrightarrow> n \<noteq> [] \<and> last n = CHR ''V''"
  using fnmatch_star_last [of "''.CSV''" n] by (simp add: has_magic_def)

lemma fnmatch_EP_hd: "fnmatch n ''E*P*'' \<Longrightarrow> n \<noteq> [] \<and> hd n = CHR ''E''"
  by (cases n) auto

lemma jpg_name_last: "last (jpg_name p) = CHR ''g''"
  by (simp add: jpg_name_def)

lemma jpg_name_no_JPG: "\<not> fnmatch (jpg_name p) ''*.JPG''"
  using fnmatch_JPG_last [of "jpg_name p"] by (auto simp: jpg_name_last)

lemma jpgs_no_JPG: "\<not> fnmatch ''jpgs'' ''*.JPG''"
  using fnmatch_JPG_last [of "''jpgs''"] by auto

lemma plain_jpg_name': "plain (jpg_name p)"
  unfolding jpg_name_def by (rule plain_jpg_name) simp

subsection \<open>Listing after a write\<close>

lemma children_put:
  "children (put w k v) d = children w d \<or> children (put w k v) d = children w d @ [k]"
  by (auto simp: children_def put_def update_keys)

lemma glob1_put:
  assumes "\<not> fnmatch (last k) pat"
    and "(lookup (put w k v) (resolve w (if d = [] then ''.'' else d)) = Some Dir)
         = (lookup w (resolve w (if d = [] then ''.'' else d)) = Some Dir)"
  shows "glob1 (put w k v) d pat = glob1 w d pat"
proof -
  let ?key = "resolve w (if d = [] then ''.'' else d)"
  let ?f = "\<lambda>n. fnmatch n pat \<and> (ishidden pat \<or> \<not> ishidden n)"
  have "filter ?f (map last (children (put w k v) ?key)) = filter ?f (map last (children w ?key))"
    using children_put [of w k v ?key] assms(1) by auto
  then show ?thesis using assms(2) by (simp add: glob1_def listdir_def)
qed

lemma Dir_put_File:
  "lookup w k \<noteq> Some Dir \<Longrightarrow> (lookup (put w k (File c)) d = Some Dir) = (lookup w d = Some Dir)"
  by (auto simp: lookup_put)

lemma glob_part_put_File:
  assumes "plain (basename q)" "\<not> fnmatch (last k) ''*.JPG''" "lookup w k \<noteq> Some Dir"
  shows "glob (put w k (File c)) (path_join q ''*.JPG'') = glob w (path_join q ''*.JPG'')"
proof -
  have "(lookup (put w k (File c)) (resolve w (if q = [] then ''.'' else q)) = Some Dir)
      = (lookup w (resolve w (if q = [] then ''.'' else q)) = Some Dir)"
    using assms(3) by (rule Dir_put_File)
  with assms(2) have "glob1 (put w k (File c)) q ''*.JPG'' = glob1 w q ''*.JPG''"
    by (rule glob1_put)
  then show ?thesis by (simp add: glob_part [OF assms(1)])
qed

lemma glob_part_put_Dir:
  assumes "plain (basename q)" "\<not> fnmatch (last k) ''*.JPG''" "resolve w q \<noteq> k"
  shows "glob (put w k Dir) (path_join q ''*.JPG'') = glob w (path_join q ''*.JPG'')"
proof -
  have q: "q \<noteq> []" using assms(1) by (rule basename_plain_path)
  have "(lookup (put w k Dir) (resolve w q) = Some Dir) = (lookup w (resolve w q) = Some Dir)"
    using assms(3) by (simp add: lookup_put)
  with q have "glob1 (put w k Dir) q ''*.JPG'' = glob1 w q ''*.JPG''"
    using glob1_put [OF assms(2), of w Dir q] by simp
  then show ?thesis by (simp add: glob_part [OF assms(1)])
qed

lemma glob_JPG_key:
  assumes "plain (basename q)" "x \<in> set (glob w (path_join q ''*.JPG''))"
  shows "resolve w x \<noteq> [] \<and> fnmatch (last (resolve w x)) ''*.JPG''"
proof -
  from glob_part_elem [OF assms(1) _ _ _ assms(2)]
  obtain n where n: "plain n" "fnmatch n ''*.JPG''" "x = path_join q n" by auto
  then have "resolve w x = resolve w q @ [n]" by (simp add: resolve_join)
  with n(2) show ?thesis using fnmatch_JPG_last [of n] by auto
qed

lemma first_jpg_at_put:
  assumes "plain (basename q)" "\<not> fnmatch (last k) ''*.JPG''" "lookup w k \<noteq> Some Dir"
    and "first_jpg_at (put w k (File c)) q w' k'"
  shows "first_jpg_at w q w' k'"
proof -
  let ?w = "put w k (File c)"
  from assms(4) obtain x xs c' where
    g: "glob ?w (path_join q ''*.JPG'') = x # xs"
    and l: "lookup ?w (resolve ?w x) = Some (File c')" and t: "lookup w' k' = Some (File c')"
    by (auto simp: first_jpg_at_def)
  have g': "glob w (path_join q ''*.JPG'') = x # xs"
    using g glob_part_put_File [OF assms(1,2,3), of c] by simp
  then have "x \<in> set (glob w (path_join q ''*.JPG''))" by simp
  from glob_JPG_key [OF assms(1) this] assms(2) have "resolve w x \<noteq> k" by auto
  with l have "lookup w (resolve w x) = Some (File c')" by (simp add: lookup_put)
  with g' t show ?thesis by (auto simp: first_jpg_at_def)
qed

lemma jpg_save_effect:
  assumes "plain (basename p)" "glob s (path_join p ''*.JPG'') = x # xs"
    and "JPGFile_init s x = Inr f" "save s f d verb False = (Inr (), sa)"
    and "lookup s (resolve s d @ [jpg_name p]) \<noteq> Some Dir"
  shows "\<exists>c. lookup s (resolve s x) = Some (File c) \<and> sa = put s (resolve s d @ [jpg_name p]) (File c)"
proof -
  from assms(2) obtain n where n: "plain n" "x = path_join p n"
    using glob_part_elem [OF assms(1), of "''*.JPG''" x s] by auto
  from JPGFile_init_part [OF assms(1) n(1)] assms(3) n(2)
  have f: "location f = x" "name f = jpg_name p" by (auto simp: jpg_name_def)
  let ?dst = "path_join d (jpg_name p)"
  have r: "resolve s ?dst = resolve s d @ [jpg_name p]"
    using plain_jpg_name' by (rule resolve_join)
  then have "\<not> isdir s ?dst" using assms(5) by (simp add: isdir_def)
  then have cd: "copy_dst s x ?dst = ?dst" by (simp add: copy_dst_def)
  from save_cases [OF assms(4)] f
  have "shutil_copy s x ?dst = (Inr (), sa)" by simp
  from shutil_copy_cases [OF this] show ?thesis by (auto simp: cd r)
qed

lemma jpg_loop_effect:
  assumes "jpg_loop s d verb False ps = (Inr (), s1)"
    and "\<forall>p\<in>set ps. plain (basename p)"
    and "\<forall>p\<in>set ps. lookup s (resolve s d @ [jpg_name p]) \<noteq> Some Dir"
  shows "cwd s1 = cwd s
     \<and> (\<forall>k. k \<notin> (\<lambda>p. resolve s d @ [jpg_name p]) ` set ps \<longrightarrow> lookup s1 k = lookup s k)
     \<and> (\<forall>p\<in>set ps. \<exists>q\<in>set ps. jpg_name q = jpg_name p
           \<and> first_jpg_at s q s1 (resolve s d @ [jpg_name p]))"
  using assms
proof (induction ps arbitrary: s)
  case Nil
  then show ?case by simp
next
  case (Cons p ps)
  have pb: "plain (basename p)" using Cons.prems(2) by simp
  let ?K = "\<lambda>p. resolve s d @ [jpg_name p]"
  have nd: "lookup s (?K p) \<noteq> Some Dir" using Cons.prems(3) by simp
  have nm: "\<not> fnmatch (last (?K p)) ''*.JPG''" by (simp add: jpg_name_no_JPG)
  from Cons.prems(1) show ?case
  proof (cases rule: jpg_loop_Cons_cases)
    case (ok x xs f sa)
    from jpg_save_effect [OF pb ok(1,2,3) nd] obtain c where
      c: "lookup s (resolve s x) = Some (File c)" and sa: "sa = put s (?K p) (File c)" by auto
    have res: "resolve sa q = resolve s q" for q by (simp add: sa)
    have nd': "\<forall>p'\<in>set ps. lookup sa (resolve sa d @ [jpg_name p']) \<noteq> Some Dir"
      using Cons.prems(3) by (auto simp: sa lookup_put)
    from Cons.IH [OF ok(4) _ nd'] Cons.prems(2)
    have cw: "cwd s1 = cwd sa"
      and A: "\<forall>k. k \<notin> ?K ` set ps \<longrightarrow> lookup s1 k = lookup sa k"
      and B: "\<forall>p'\<in>set ps. \<exists>q\<in>set ps. jpg_name q = jpg_name p' \<and> first_jpg_at sa q s1 (?K p')"
      by (simp_all add: res)
    have B': "\<exists>q\<in>set (p # ps). jpg_name q = jpg_name p' \<and> first_jpg_at s q s1 (?K p')"
      if "p' \<in> set ps" for p'
    proof -
      from B that obtain q where q: "q \<in> set ps" "jpg_name q = jpg_name p'"
        "first_jpg_at sa q s1 (?K p')" by blast
      have "plain (basename q)" using q(1) Cons.prems(2) by simp
      from first_jpg_at_put [OF this nm nd q(3) [unfolded sa]] q(1,2) show ?thesis by auto
    qed
    have Bp: "\<exists>q\<in>set (p # ps). jpg_name q = jpg_name p \<and> first_jpg_at s q s1 (?K p)"
    proof (cases "?K p \<in> ?K ` set ps")
      case True
      then obtain p' where p': "p' \<in> set ps" "jpg_name p' = jpg_name p" by auto
      from B' [OF p'(1)] p'(2) show ?thesis by simp
    next
      case False
      with A have "lookup s1 (?K p) = lookup sa (?K p)" by blast
      then have "lookup s1 (?K p) = Some (File c)" by (simp add: sa lookup_put)
      with ok(1) c have "first_jpg_at s p s1 (?K p)" by (auto simp: first_jpg_at_def)
      then show ?thesis by auto
    qed
    show ?thesis
    proof (intro conjI allI impI ballI)
      show "cwd s1 = cwd s" using cw by (simp add: sa)
    next
      fix k
      assume "k \<notin> ?K ` set (p # ps)"
      then have "k \<notin> ?K ` set ps" "k \<noteq> ?K p" by auto
      with A show "lookup s1 k = lookup s k" by (simp add: sa lookup_put)
    next
      fix p'
      assume "p' \<in> set (p # ps)"
      then show "\<exists>q\<in>set (p # ps). jpg_name q = jpg_name p' \<and> first_jpg_at s q s1 (?K p')"
        using B' Bp by auto
    qed
  qed simp_all
qed

subsection \<open>The JPG block\<close>

lemma resolve_jpg_path:
  "resolve w (jpg_path dest p) = resolve w dest @ [''jpgs'', jpg_name p]"
  by (simp add: jpg_path_def resolve_join plain_jpg_name')

lemma jpg_path_nonempty: "jpg_path dest p \<noteq> []"
  by (simp add: jpg_path_def path_join_nonempty plain_jpg_name')

lemma first_jpg_at_put_Dir:
  assumes "plain (basename q)" "\<not> fnmatch (last k) ''*.JPG''" "resolve w q \<noteq> k"
    and "first_jpg_at (put w k Dir) q w' k'"
  shows "first_jpg_at w q w' k'"
proof -
  let ?w = "put w k Dir"
  from assms(4) obtain x xs c' where
    g: "glob ?w (path_join q ''*.JPG'') = x # xs"
    and l: "lookup ?w (resolve ?w x) = Some (File c')" and t: "lookup w' k' = Some (File c')"
    by (auto simp: first_jpg_at_def)
  have g': "glob w (path_join q ''*.JPG'') = x # xs"
    using g glob_part_put_Dir [OF assms(1,2,3)] by simp
  then have "x \<in> set (glob w (path_join q ''*.JPG''))" by simp
  from glob_JPG_key [OF assms(1) this] assms(2) have "resolve w x \<noteq> k" by auto
  with l have "lookup w (resolve w x) = Some (File c')" by (simp add: lookup_put)
  with g' t show ?thesis by (auto simp: first_jpg_at_def)
qed

lemma part_not_jpgs:
  assumes "fnmatch (basename q) ''E*P*''" "resolve w q = d @ [basename q]"
  shows "resolve w q \<noteq> t @ [''jpgs'']"
  using fnmatch_EP_hd [OF assms(1)] assms(2) by auto

lemma save_jpgs_effect:
  assumes "save_jpgs self w dest verb False = (Inr (), wm)" "path_exists w dest"
    and "\<forall>p\<in>set (exercise_parts self). plain (basename p) \<and> fnmatch (basename p) ''E*P*''
           \<and> resolve w p = d @ [basename p]"
    and "\<forall>p\<in>set (exercise_parts self). \<not> isdir w (jpg_path dest p)"
  shows "cwd wm = cwd w
     \<and> (\<forall>k. lookup wm k \<noteq> lookup w k \<longrightarrow>
            k = resolve w (path_join dest ''jpgs'')
            \<or> (\<exists>p\<in>set (exercise_parts self). k = resolve w (jpg_path dest p)))
     \<and> (\<forall>p\<in>set (exercise_parts self). \<exists>q\<in>set (exercise_parts self). jpg_name q = jpg_name p
           \<and> first_jpg_at w q wm (resolve w (jpg_path dest p)))"
  using assms(1)
proof (cases rule: save_jpgs_step)
  case (ok wa wb)
  let ?ts = "path_join dest ''jpgs''"
  let ?J = "resolve w dest @ [''jpgs'']"
  let ?K = "\<lambda>p. ?J @ [jpg_name p]"
  have J: "resolve w ?ts = ?J" by (simp add: resolve_join)
  have wm: "wm = wb" using ok(3) by simp
  have pl: "\<forall>p\<in>set (exercise_parts self). plain (basename p)" using assms(3) by simp
  have wa: "wa = w \<or> (wa = put w ?J Dir \<and> lookup w ?J = None)"
  proof (cases "path_exists w ?ts")
    case True
    with ok(1) show ?thesis by simp
  next
    case False
    with ok(1) have "makedirs w ?ts = (Inr (), wa)" by simp
    then have "mkdir_key w ?J = (Inr (), wa)" using assms(2) by (simp add: makedirs_below)
    from mkdir_key_cases [OF this] show ?thesis by auto
  qed
  then have res: "resolve wa q = resolve w q" for q by auto
  have cwa: "cwd wa = cwd w" using wa by auto
  have la: "lookup wa k = lookup w k" if "k \<noteq> ?J" for k
    using wa that by (auto simp: lookup_put)
  have nd: "\<forall>p\<in>set (exercise_parts self). lookup wa (resolve wa ?ts @ [jpg_name p]) \<noteq> Some Dir"
  proof
    fix p
    assume "p \<in> set (exercise_parts self)"
    with assms(4) have "lookup w (?K p) \<noteq> Some Dir"
      by (simp add: isdir_def jpg_path_nonempty resolve_jpg_path)
    then show "lookup wa (resolve wa ?ts @ [jpg_name p]) \<noteq> Some Dir"
      by (simp add: res J la)
  qed
  from jpg_loop_effect [OF ok(2) pl nd]
  have cw: "cwd wb = cwd wa"
    and A: "\<forall>k. k \<notin> ?K ` set (exercise_parts self) \<longrightarrow> lookup wb k = lookup wa k"
    and B: "\<forall>p\<in>set (exercise_parts self). \<exists>q\<in>set (exercise_parts self). jpg_name q = jpg_name p
           \<and> first_jpg_at wa q wb (?K p)"
    by (simp_all add: res J)
  have conv: "first_jpg_at w q wb k" if "q \<in> set (exercise_parts self)" "first_jpg_at wa q wb k" for q k
  proof -
    from that(1) assms(3) have q: "plain (basename q)" "fnmatch (basename q) ''E*P*''"
      "resolve w q = d @ [basename q]" by auto
    from wa show ?thesis
    proof
      assume "wa = w"
      with that(2) show ?thesis by simp
    next
      assume a: "wa = put w ?J Dir \<and> lookup w ?J = None"
      have "\<not> fnmatch (last ?J) ''*.JPG''" by (simp add: jpgs_no_JPG)
      moreover have "resolve w q \<noteq> ?J" using q(2,3) by (rule part_not_jpgs)
      ultimately show ?thesis using that(2) a first_jpg_at_put_Dir [OF q(1), of ?J w wb k] by simp
    qed
  qed
  show ?thesis
  proof (intro conjI allI impI ballI)
    show "cwd wm = cwd w" using cw cwa wm by simp
  next
    fix k
    assume ch: "lookup wm k \<noteq> lookup w k"
    show "k = resolve w ?ts \<or> (\<exists>p\<in>set (exercise_parts self). k = resolve w (jpg_path dest p))"
    proof (cases "k \<in> ?K ` set (exercise_parts self)")
      case True
      then show ?thesis by (auto simp: resolve_jpg_path)
    next
      case False
      with A have "lookup wb k = lookup wa k" by blast
      with ch wm have "lookup wa k \<noteq> lookup w k" by simp
      with la have "k = ?J" by blast
      then show ?thesis by (simp add: J)
    qed
  next
    fix p
    assume p: "p \<in> set (exercise_parts self)"
    with B obtain q where q: "q \<in> set (exercise_parts self)" "jpg_name q = jpg_name p"
      "first_jpg_at wa q wb (?K p)" by blast
    from conv [OF q(1,3)] q(1,2) wm
    show "\<exists>q\<in>set (exercise_parts self). jpg_name q = jpg_name p
           \<and> first_jpg_at w q wm (resolve w (jpg_path dest p))"
      by (auto simp: resolve_jpg_path)
  qed
qed simp_all

subsection \<open>The CSV loop keeps out of \<open>jpgs\<close>\<close>

lemma save_touches:
  assumes "plain (name f)" "plain (basename (location f))" "save w f s verb sr = (r, w')"
    and "\<not> prefix (resolve w s @ [name f]) k"
  shows "lookup w' k = lookup w k"
proof (cases r)
  case (Inl e)
  with assms(3) show ?thesis by (auto dest: save_failed)
next
  case (Inr u)
  with assms(3) have "sr \<and> w' = w
      \<or> \<not> sr \<and> shutil_copy w (location f) (path_join s (name f)) = (Inr (), w')"
    using save_cases [of w f s verb sr w'] by simp
  then show ?thesis
  proof
    assume "sr \<and> w' = w"
    then show ?thesis by simp
  next
    assume "\<not> sr \<and> shutil_copy w (location f) (path_join s (name f)) = (Inr (), w')"
    then have sc: "shutil_copy w (location f) (path_join s (name f)) = (Inr (), w')" by simp
    let ?kd = "resolve w (copy_dst w (location f) (path_join s (name f)))"
    from shutil_copy_cases [OF sc] obtain c where w': "w' = put w ?kd (File c)" by auto
    from resolve_copy_dst [OF assms(1,2), of w s]
    have "prefix (resolve w s @ [name f]) ?kd" by auto
    with assms(4) have "k \<noteq> ?kd" by auto
    with w' show ?thesis by (simp add: lookup_put)
  qed
qed

lemma csv_name_not_jpgs:
  assumes "fnmatch n ''*.CSV''"
  shows "(if rn then lower (b @ ''.'' @ last7 n) else n) \<noteq> ''jpgs''"
proof (cases rn)
  case True
  have dot: "CHR ''.'' \<in> set (lower (b @ ''.'' @ last7 n))" by simp
  have "lower (b @ ''.'' @ last7 n) \<noteq> ''jpgs''"
  proof
    assume e: "lower (b @ ''.'' @ last7 n) = ''jpgs''"
    from dot [unfolded e] show False by simp
  qed
  with True show ?thesis by simp
next
  case False
  from fnmatch_CSV_last [OF assms] have "n \<noteq> ''jpgs''" by auto
  with False show ?thesis by simp
qed

lemma csv_files_loop_keeps:
  assumes "csv_files_loop s d rn verb sr xs = (r, s1)" "plain (basename p)"
    and "\<forall>x\<in>set xs. \<exists>n. plain n \<and> fnmatch n ''*.CSV'' \<and> x = path_join p n"
    and "\<forall>nm. nm = ''jpgs'' \<or> \<not> prefix (resolve s d @ [nm]) k"
  shows "lookup s1 k = lookup s k"
  using assms(1,3,4)
proof (induction xs arbitrary: s)
  case Nil
  then show ?case by simp
next
  case (Cons x xs)
  from Cons.prems(2) obtain n where n: "plain n" "fnmatch n ''*.CSV''" "x = path_join p n" by auto
  from Cons.prems(1) show ?case
  proof (cases rule: csv_files_loop_Cons_cases)
    case (init_fail e)
    then show ?thesis by simp
  next
    case (save_fail f e)
    then show ?thesis by (auto dest: save_failed)
  next
    case (ok f sa)
    from CSVFile_init_part [OF assms(2) n(1), of s rn f] ok(1) n(3)
    have f: "location f = path_join p n"
      "name f = (if rn then lower (basename p @ ''.'' @ last7 n) else n)" by auto
    have pl: "plain (name f)" "plain (basename (location f))"
      using f assms(2) n(1) plain_csv_name [OF assms(2) n(1)] by (simp_all add: basename_join)
    have "name f \<noteq> ''jpgs''" unfolding f(2) using n(2) by (rule csv_name_not_jpgs)
    with Cons.prems(3) have "\<not> prefix (resolve s d @ [name f]) k" by blast
    with pl ok(2) have 1: "lookup sa k = lookup s k" by (rule save_touches)
    have "frame (resolve s d) s sa" using pl ok(2) by (rule frame_save)
    then have res: "resolve sa q = resolve s q" for q by (rule frame_resolve)
    have "lookup s1 k = lookup sa k"
      using Cons.IH [OF ok(3)] Cons.prems(2,3) by (simp add: res)
    with 1 show ?thesis by simp
  qed
qed

lemma glob_CSV_all:
  assumes "plain (basename p)"
  shows "\<forall>x\<in>set (glob w (path_join p ''*.CSV'')). \<exists>n. plain n \<and> fnmatch n ''*.CSV'' \<and> x = path_join p n"
  using glob_part_elem [OF assms, of "''*.CSV''" _ w] by auto

lemma prefix_branch:
  assumes "prefix (t @ [a]) k" "prefix (t @ b # rest) k"
  shows "a = b"
proof -
  from assms have "prefix (t @ [a]) (t @ b # rest) \<or> prefix (t @ b # rest) (t @ [a])"
    by (rule prefix_same_cases)
  then show ?thesis by auto
qed

lemma csv_loop_keeps_jpgs:
  assumes "csv_loop s dest cf rn verb False ps = (Inr (), s1)" "path_exists s dest"
    and "\<forall>p\<in>set ps. plain (basename p) \<and> fnmatch (basename p) ''E*P*''"
    and "prefix (resolve s dest @ [''jpgs'']) k"
  shows "lookup s1 k = lookup s k"
  using assms
proof (induction ps arbitrary: s)
  case Nil
  then show ?case by simp
next
  case (Cons p ps)
  let ?t = "resolve s dest"
  let ?b = "basename p"
  let ?ts = "if cf then path_join dest ?b else dest"
  have pb: "plain ?b" and ep: "fnmatch ?b ''E*P*''" using Cons.prems(3) by simp_all
  have bj: "?b \<noteq> ''jpgs''" using fnmatch_EP_hd [OF ep] by auto
  note under = Cons.prems(4)
  from Cons.prems(1) show ?case
  proof (cases rule: csv_loop_step)
    case (ok sa sb sc)
    have sc: "sc = sb" using ok(3) by simp
    have fa: "frame ?t s sa" using Cons.prems(2) pb refl ok(1) by (rule frame_csv_mk)
    have fb: "frame ?t s sb" using Cons.prems(2) pb refl ok(1,2) by (rule frame_csv_files)
    have resa: "resolve sa q = resolve s q" for q using fa by (rule frame_resolve)
    have resb: "resolve sb q = resolve s q" for q using fb by (rule frame_resolve)
    have 1: "lookup sa k = lookup s k"
    proof (cases "cf \<and> \<not> path_exists s ?ts")
      case True
      with ok(1) have "makedirs s (path_join dest ?b) = (Inr (), sa)" by (auto split: if_splits)
      then have "mkdir_key s (?t @ [?b]) = (Inr (), sa)"
        using Cons.prems(2) pb by (simp add: makedirs_below)
      from mkdir_key_cases [OF this] have sa: "sa = put s (?t @ [?b]) Dir" by auto
      have "k \<noteq> ?t @ [?b]"
      proof
        assume "k = ?t @ [?b]"
        with under have "prefix (?t @ [''jpgs'']) (?t @ [?b])" by simp
        with bj show False by simp
      qed
      with sa show ?thesis by (simp add: lookup_put)
    next
      case False
      with ok(1) show ?thesis by (auto split: if_splits)
    qed
    have cond: "\<forall>nm. nm = ''jpgs'' \<or> \<not> prefix (resolve sa ?ts @ [nm]) k"
    proof (intro allI)
      fix nm
      show "nm = ''jpgs'' \<or> \<not> prefix (resolve sa ?ts @ [nm]) k"
      proof (cases cf)
        case True
        have "\<not> prefix (?t @ [?b, nm]) k"
        proof
          assume "prefix (?t @ [?b, nm]) k"
          with under have "''jpgs'' = ?b" by (simp add: prefix_branch)
          with bj show False by simp
        qed
        with True pb show ?thesis by (simp add: resa resolve_join)
      next
        case False
        have "nm = ''jpgs''" if "prefix (?t @ [nm]) k"
          using that under prefix_branch [of ?t nm k "''jpgs''" "[]"] by simp
        with False show ?thesis by (auto simp: resa)
      qed
    qed
    have 2: "lookup sb k = lookup sa k"
      using ok(2) pb glob_CSV_all [OF pb] cond by (rule csv_files_loop_keeps)
    have "path_exists sb dest" using fb Cons.prems(2) by (simp add: frame_path_exists)
    with Cons.IH [OF ok(4) [unfolded sc]] Cons.prems(3) under
    have "lookup s1 k = lookup sb k" by (simp add: resb)
    with 1 2 show ?thesis by simp
  qed simp_all
qed


subsection \<open>What the CSV loop writes\<close>

lemma csv_kept_refl: "csv_kept w w"
  by (auto simp: csv_kept_def csv_content_def)

lemma csv_kept_put_Dir: "csv_kept w s \<Longrightarrow> csv_kept w (put s k Dir)"
  by (auto simp: csv_kept_def lookup_put)

lemma csv_kept_put_File: "csv_kept w s \<Longrightarrow> csv_content w c \<Longrightarrow> csv_kept w (put s k (File c))"
  by (auto simp: csv_kept_def lookup_put)

lemma csv_save_copies:
  assumes "plain (basename p)" "plain n" "fnmatch n ''*.CSV''"
    and "CSVFile_init s (path_join p n) rn = Inr f"
    and "save s f d verb False = (Inr (), sa)"
    and "csv_kept w s"
  shows "csv_kept w sa
         \<and> (\<forall>k. lookup sa k = lookup s k \<or> (\<exists>c. csv_content w c \<and> lookup sa k = Some (File c)))"
proof -
  from CSVFile_init_part [OF assms(1,2,4)] have loc: "location f = path_join p n" by simp
  from save_cases [OF assms(5)]
  have sc: "shutil_copy s (location f) (path_join d (name f)) = (Inr (), sa)" by simp
  let ?kd = "resolve s (copy_dst s (location f) (path_join d (name f)))"
  from shutil_copy_cases [OF sc] obtain c where
    c: "lookup s (resolve s (location f)) = Some (File c)" and sa: "sa = put s ?kd (File c)"
    by auto
  have "resolve s (location f) = resolve s p @ [n]" using assms(2) by (simp add: loc resolve_join)
  with c have "resolve s p @ [n] \<noteq> [] \<and> fnmatch (last (resolve s p @ [n])) ''*.CSV''
      \<and> lookup s (resolve s p @ [n]) = Some (File c)"
    using assms(3) by simp
  with assms(6) have cc: "csv_content w c" unfolding csv_kept_def by blast
  with assms(6) have "csv_kept w sa" unfolding sa by (rule csv_kept_put_File)
  moreover have "\<forall>k. lookup sa k = lookup s k \<or> (\<exists>c. csv_content w c \<and> lookup sa k = Some (File c))"
    using cc by (auto simp: sa lookup_put)
  ultimately show ?thesis by simp
qed

lemma csv_files_loop_copies:
  assumes "csv_files_loop s d rn verb False xs = (r, s1)" "plain (basename p)"
    and "\<forall>x\<in>set xs. \<exists>n. plain n \<and> fnmatch n ''*.CSV'' \<and> x = path_join p n"
    and "csv_kept w s"
  shows "csv_kept w s1
         \<and> (\<forall>k. lookup s1 k = lookup s k \<or> (\<exists>c. csv_content w c \<and> lookup s1 k = Some (File c)))"
  using assms(1,3,4)
proof (induction xs arbitrary: s)
  case Nil
  then show ?case by simp
next
  case (Cons x xs)
  from Cons.prems(2) obtain n where n: "plain n" "fnmatch n ''*.CSV''" "x = path_join p n" by auto
  from Cons.prems(1) show ?case
  proof (cases rule: csv_files_loop_Cons_cases)
    case (init_fail e)
    with Cons.prems(3) show ?thesis by simp
  next
    case (save_fail f e)
    with Cons.prems(3) show ?thesis by (auto dest: save_failed)
  next
    case (ok f sa)
    from ok(1) have i: "CSVFile_init s (path_join p n) rn = Inr f" by (simp add: n(3))
    from csv_save_copies [OF assms(2) n(1,2) i ok(2) Cons.prems(3)]
    have ka: "csv_kept w sa"
      and ca: "\<forall>k. lookup sa k = lookup s k \<or> (\<exists>c. csv_content w c \<and> lookup sa k = Some (File c))"
      by simp_all
    from Cons.IH [OF ok(3) _ ka] Cons.prems(2)
    have k1: "csv_kept w s1"
      and c1: "\<forall>k. lookup s1 k = lookup sa k \<or> (\<exists>c. csv_content w c \<and> lookup s1 k = Some (File c))"
      by simp_all
    show ?thesis
    proof (intro conjI allI)
      show "csv_kept w s1" by (rule k1)
    next
      fix k
      from c1 have "lookup s1 k = lookup sa k \<or> (\<exists>c. csv_content w c \<and> lookup s1 k = Some (File c))" ..
      moreover from ca have "lookup sa k = lookup s k \<or> (\<exists>c. csv_content w c \<and> lookup sa k = Some (File c))" ..
      ultimately show "lookup s1 k = lookup s k \<or> (\<exists>c. csv_content w c \<and> lookup s1 k = Some (File c))"
        by auto
    qed
  qed
qed


lemma csv_loop_copies:
  assumes "csv_loop s dest cf rn verb False ps = (Inr (), s1)" "path_exists s dest"
    and "\<forall>p\<in>set ps. plain (basename p)"
    and "csv_kept w s"
  shows "csv_kept w s1
         \<and> (\<forall>k. lookup s1 k = lookup s k
              \<or> (\<exists>p\<in>set ps. k = resolve s dest @ [basename p] \<and> lookup s1 k = Some Dir)
              \<or> (\<exists>c. csv_content w c \<and> lookup s1 k = Some (File c)))"
  using assms
proof (induction ps arbitrary: s)
  case Nil
  then show ?case by simp
next
  case (Cons p ps)
  let ?t = "resolve s dest"
  let ?b = "basename p"
  let ?ts = "if cf then path_join dest ?b else dest"
  have pb: "plain ?b" using Cons.prems(3) by simp
  from Cons.prems(1) show ?case
  proof (cases rule: csv_loop_step)
    case (ok sa sb sc)
    have sc: "sc = sb" using ok(3) by simp
    have fb: "frame ?t s sb" using Cons.prems(2) pb refl ok(1,2) by (rule frame_csv_files)
    have resb: "resolve sb q = resolve s q" for q using fb by (rule frame_resolve)
    have mk: "csv_kept w sa \<and> (\<forall>k. lookup sa k = lookup s k \<or> k = ?t @ [?b] \<and> lookup sa k = Some Dir)"
    proof (cases "cf \<and> \<not> path_exists s ?ts")
      case True
      with ok(1) have "makedirs s (path_join dest ?b) = (Inr (), sa)" by (auto split: if_splits)
      then have "mkdir_key s (?t @ [?b]) = (Inr (), sa)"
        using Cons.prems(2) pb by (simp add: makedirs_below)
      from mkdir_key_cases [OF this] have sa: "sa = put s (?t @ [?b]) Dir" by auto
      show ?thesis unfolding sa using Cons.prems(4) by (simp add: csv_kept_put_Dir lookup_put)
    next
      case False
      with ok(1) Cons.prems(4) show ?thesis by (auto split: if_splits)
    qed
    then have ka: "csv_kept w sa"
      and ca: "\<forall>k. lookup sa k = lookup s k \<or> k = ?t @ [?b] \<and> lookup sa k = Some Dir"
      by simp_all
    from csv_files_loop_copies [OF ok(2) pb glob_CSV_all [OF pb] ka]
    have kb: "csv_kept w sb"
      and cb: "\<forall>k. lookup sb k = lookup sa k \<or> (\<exists>c. csv_content w c \<and> lookup sb k = Some (File c))"
      by simp_all
    have eb: "path_exists sb dest" using fb Cons.prems(2) by (simp add: frame_path_exists)
    from Cons.IH [OF ok(4) [unfolded sc] eb _ kb] Cons.prems(3)
    have k1: "csv_kept w s1"
      and c1: "\<forall>k. lookup s1 k = lookup sb k
              \<or> (\<exists>p\<in>set ps. k = ?t @ [basename p] \<and> lookup s1 k = Some Dir)
              \<or> (\<exists>c. csv_content w c \<and> lookup s1 k = Some (File c))"
      by (simp_all add: resb)
    show ?thesis
    proof (intro conjI allI)
      show "csv_kept w s1" by (rule k1)
    next
      fix k
      from c1 have 1: "lookup s1 k = lookup sb k
              \<or> (\<exists>p\<in>set ps. k = ?t @ [basename p] \<and> lookup s1 k = Some Dir)
              \<or> (\<exists>c. csv_content w c \<and> lookup s1 k = Some (File c))" ..
      from cb have 2: "lookup sb k = lookup sa k \<or> (\<exists>c. csv_content w c \<and> lookup sb k = Some (File c))" ..
      from ca have 3: "lookup sa k = lookup s k \<or> k = ?t @ [?b] \<and> lookup sa k = Some Dir" ..
      from 1 2 3 show "lookup s1 k = lookup s k
              \<or> (\<exists>q\<in>set (p # ps). k = ?t @ [basename q] \<and> lookup s1 k = Some Dir)
              \<or> (\<exists>c. csv_content w c \<and> lookup s1 k = Some (File c))"
        by auto
    qed
  qed simp_all
qed

lemma csv_kept_after_jpgs:
  assumes "\<forall>k. lookup wm k \<noteq> lookup w k \<longrightarrow>
            k = resolve w (path_join dest ''jpgs'')
            \<or> (\<exists>p\<in>P. k = resolve w (jpg_path dest p))"
  shows "csv_kept w wm"
  unfolding csv_kept_def
proof (intro allI impI)
  fix k c
  assume a: "k \<noteq> [] \<and> fnmatch (last k) ''*.CSV'' \<and> lookup wm k = Some (File c)"
  then have v: "last k \<noteq> [] \<and> last (last k) = CHR ''V''" using fnmatch_CSV_last by blast
  have "lookup wm k = lookup w k"
  proof (rule ccontr)
    assume "lookup wm k \<noteq> lookup w k"
    with assms have "k = resolve w (path_join dest ''jpgs'')
            \<or> (\<exists>p\<in>P. k = resolve w (jpg_path dest p))" by blast
    then show False
    proof
      assume "k = resolve w (path_join dest ''jpgs'')"
      then have "last k = ''jpgs''" by (simp add: resolve_join)
      with v show False by simp
    next
      assume "\<exists>p\<in>P. k = resolve w (jpg_path dest p)"
      then obtain p where "k = resolve w (jpg_path dest p)" by blast
      then have "last k = jpg_name p" by (simp add: resolve_jpg_path)
      with v show False by (simp add: jpg_name_last)
    qed
  qed
  with a show "csv_content w c" by (auto simp: csv_content_def)
qed
section \<open>Invalid paths and invalid command lines\<close>

lemma path_join_relative:
  "\<not> is_abs b \<Longrightarrow> path_join ''/Volumes'' b = ''/Volumes/'' @ b"
  by (auto simp: path_join_def is_abs_def)

text \<open>
  Claim C3.  When the drive location \<open>os.path.join("/Volumes", drive_name)\<close> (which is
  \<open>/Volumes/<drive_name>\<close> for every drive name that does not start with a slash) does
  not exist, the constructor raises FileNotFoundError.  When the destination does not
  exist, \<open>copy_scope_data\<close> and \<open>File.save\<close> raise FileNotFoundError and leave the file
  system as it was.
\<close>

theorem invalid_paths_fail:
  "(\<not> path_exists w (path_join ''/Volumes'' dname)
      \<longrightarrow> OscilloscopeDataCopier_init w dname = Inl FileNotFoundError)
   \<and> (\<not> is_abs dname \<and> \<not> path_exists w (''/Volumes/'' @ dname)
      \<longrightarrow> OscilloscopeDataCopier_init w dname = Inl FileNotFoundError)
   \<and> (\<not> path_exists w destination
      \<longrightarrow> copy_scope_data self w destination create_folders rename_csv save_jpg verb softrun
          = (Inl FileNotFoundError, w))
   \<and> (\<not> path_exists w destination
      \<longrightarrow> save w f destination verb softrun = (Inl FileNotFoundError, w))"
proof -
  have a: "\<not> path_exists w (path_join ''/Volumes'' dname)
      \<Longrightarrow> OscilloscopeDataCopier_init w dname = Inl FileNotFoundError"
    by (simp add: OscilloscopeDataCopier_init_def Let_def)
  have b: "\<not> is_abs dname \<Longrightarrow> \<not> path_exists w (''/Volumes/'' @ dname)
      \<Longrightarrow> OscilloscopeDataCopier_init w dname = Inl FileNotFoundError"
    using a path_join_relative [of dname] by simp
  have c: "\<not> path_exists w destination
      \<Longrightarrow> copy_scope_data self w destination create_folders rename_csv save_jpg verb softrun
          = (Inl FileNotFoundError, w)"
    by (simp add: copy_scope_data_def)
  have d: "\<not> path_exists w destination
      \<Longrightarrow> save w f destination verb softrun = (Inl FileNotFoundError, w)"
    by (simp add: save_def)
  from a b c d show ?thesis by blast
qed

theorem invalid_paths_fail_witness:
  "\<not> path_exists scope_drive (path_join ''/Volumes'' ''LAB-DATA'')
   \<and> \<not> is_abs ''LAB-DATA''
   \<and> \<not> path_exists scope_drive ''/Volumes/LAB-DATA''
   \<and> \<not> path_exists scope_drive ''/report''
   \<and> OscilloscopeDataCopier_init scope_drive ''LAB-DATA'' = Inl FileNotFoundError
   \<and> copy_scope_data scope_copier scope_drive ''/report'' False True True True False
       = (Inl FileNotFoundError, scope_drive)
   \<and> save scope_drive \<lparr>location = ''/Volumes/ECE65-DATA/E1P1/F0000CH1.CSV'', name = ''e1p1.ch1.csv''\<rparr>
        ''/report'' True False = (Inl FileNotFoundError, scope_drive)"
proof -
  have h1: "\<not> path_exists scope_drive (path_join ''/Volumes'' ''LAB-DATA'')" by code_simp
  have h2: "\<not> is_abs ''LAB-DATA''" by code_simp
  have h3: "\<not> path_exists scope_drive ''/Volumes/LAB-DATA''" by code_simp
  have h4: "\<not> path_exists scope_drive ''/report''" by code_simp
  from invalid_paths_fail [of scope_drive "''LAB-DATA''" "''/report''" scope_copier
      False True True True False
      "\<lparr>location = ''/Volumes/ECE65-DATA/E1P1/F0000CH1.CSV'', name = ''e1p1.ch1.csv''\<rparr>"]
    h1 h2 h3 h4
  show ?thesis by simp
qed

text \<open>
  Claim C5.  With \<open>--prelab-only\<close> and \<open>-c\<close> together, or with \<open>--generate-notebooks\<close> and
  no student name or no student id, or with \<open>--generate-notebooks\<close> and lists of different
  lengths, the script ends in \<open>parser.error\<close> (exit status 2) and the file system is
  untouched.
\<close>

theorem invalid_flags_exit:
  "(arg_prelab_only a \<and> arg_c a)
   \<or> (arg_generate_notebooks a \<and> (falsy (arg_student_names a) \<or> falsy (arg_student_ids a)))
   \<or> (arg_generate_notebooks a
       \<and> length (list_of (arg_student_names a)) \<noteq> length (list_of (arg_student_ids a)))
   \<Longrightarrow> main w a = (Inl (SystemExit 2), w)"
  by (auto simp: main_def)

theorem invalid_flags_exit_witness:
  "main scope_drive (copy_only_args\<lparr>arg_prelab_only := True\<rparr>) = (Inl (SystemExit 2), scope_drive)
   \<and> main scope_drive (copy_only_args\<lparr>arg_c := False, arg_generate_notebooks := True,
        arg_student_names := Some [''Ada'']\<rparr>) = (Inl (SystemExit 2), scope_drive)
   \<and> main scope_drive (copy_only_args\<lparr>arg_c := False, arg_generate_notebooks := True,
        arg_student_names := Some [''Ada'', ''Bob''], arg_student_ids := Some [''A1'']\<rparr>)
       = (Inl (SystemExit 2), scope_drive)"
proof -
  have 1: "main scope_drive (copy_only_args\<lparr>arg_prelab_only := True\<rparr>)
      = (Inl (SystemExit 2), scope_drive)"
    by (rule invalid_flags_exit) (simp add: copy_only_args_def)
  have 2: "main scope_drive (copy_only_args\<lparr>arg_c := False, arg_generate_notebooks := True,
        arg_student_names := Some [''Ada'']\<rparr>) = (Inl (SystemExit 2), scope_drive)"
    by (rule invalid_flags_exit) (simp add: copy_only_args_def falsy_def)
  have 3: "main scope_drive (copy_only_args\<lparr>arg_c := False, arg_generate_notebooks := True,
        arg_student_names := Some [''Ada'', ''Bob''], arg_student_ids := Some [''A1'']\<rparr>)
       = (Inl (SystemExit 2), scope_drive)"
    by (rule invalid_flags_exit) (simp add: copy_only_args_def list_of_def)
  from 1 2 3 show ?thesis by simp
qed

section \<open>Where the code departs from its description\<close>

text \<open>
  Claim C2.  The constructor selects with the pattern \<open>E*P*\<close>, so the folder \<open>EXPORT\<close> is
  an exercise part, and \<open>copy_scope_data\<close> copies its files.
\<close>

theorem export_folder_is_copied:
  "OscilloscopeDataCopier_init export_drive ''ECE65-DATA''
     = Inr \<lparr>drive_location = ''/Volumes/ECE65-DATA'',
            exercise_parts = [''/Volumes/ECE65-DATA/EXPORT'']\<rparr>
   \<and> fst (copy_scope_data
            \<lparr>drive_location = ''/Volumes/ECE65-DATA'',
             exercise_parts = [''/Volumes/ECE65-DATA/EXPORT'']\<rparr>
            export_drive ''/out'' False True True True False) = Inr ()
   \<and> lookup (snd (copy_scope_data
            \<lparr>drive_location = ''/Volumes/ECE65-DATA'',
             exercise_parts = [''/Volumes/ECE65-DATA/EXPORT'']\<rparr>
            export_drive ''/out'' False True True True False)) [''out'', ''export.ch1.csv'']
     = Some (File (Data ''ch1''))"
  by code_simp

text \<open>
  Claim C4.  On a drive whose folder \<open>E1P1\<close> has no JPG, \<open>glob(...)[0]\<close> raises IndexError,
  which is not a FileNotFoundError.
\<close>

theorem missing_jpg_raises_IndexError:
  "OscilloscopeDataCopier_init csv_only_drive ''ECE65-DATA'' = Inr scope_copier
   \<and> fst (copy_scope_data scope_copier csv_only_drive ''/out'' False True True True False)
     = Inl IndexError"
  by code_simp

text \<open>
  Whatever the drive holds, the copy-only branch never completes: the constructor fails, or
  the destination \<open>True\<close> is refused as a file descriptor that is not open, or
  \<open>os.path.join(True, "jpgs")\<close> raises TypeError.
\<close>

lemma copy_only_never_completes: "arg_c a \<Longrightarrow> fst (main w a) \<noteq> Inr ()"
  by (auto simp: main_def copy_scope_data_bool_def split: sum.splits)

text \<open>
  Claim C7.  With \<open>-c\<close> the destination is the flag itself, \<open>True\<close>: on the drive of the
  oscilloscope the copy stops with TypeError and nothing is copied.
\<close>

theorem copy_only_raises_TypeError:
  "main scope_drive copy_only_args = (Inl TypeError, scope_drive)"
  by code_simp

section \<open>Renaming\<close>

text \<open>
  Claim C1.  For an existing file \<open><pre>/<dir>/<base>\<close>, \<open>CSVFile\<close> with \<open>rename=True\<close>
  names the copy by the lower-case directory name, a dot and the lower-case last seven
  characters of the basename; \<open>F0000CH<O>.CSV\<close> in \<open>E<N>P<M>\<close>, with a one-character
  channel, becomes \<open>e<n>p<m>.ch<o>.csv\<close>; and the new name depends on nothing but the
  directory name and those last seven characters.
\<close>

theorem csv_rename:
  assumes "CHR ''/'' \<notin> set dir" and "CHR ''/'' \<notin> set base"
    and "path_exists w (pre @ ''/'' @ dir @ ''/'' @ base)"
  shows "CSVFile_init w (pre @ ''/'' @ dir @ ''/'' @ base) True
           = Inr \<lparr>location = pre @ ''/'' @ dir @ ''/'' @ base,
                  name = lower dir @ ''.'' @ lower (last7 base)\<rparr>
         \<and> (dir = ''E'' @ n @ ''P'' @ m \<and> base = ''F0000CH'' @ [ch] @ ''.CSV''
            \<longrightarrow> CSVFile_init w (pre @ ''/'' @ dir @ ''/'' @ base) True
                = Inr \<lparr>location = pre @ ''/'' @ dir @ ''/'' @ base,
                       name = ''e'' @ lower n @ ''p'' @ lower m @ ''.ch'' @ lower [ch] @ ''.csv''\<rparr>)
         \<and> (\<forall>w' pre' base'.
              CHR ''/'' \<notin> set base' \<and> path_exists w' (pre' @ ''/'' @ dir @ ''/'' @ base')
              \<and> last7 base' = last7 base
            \<longrightarrow> map_sum id name (CSVFile_init w' (pre' @ ''/'' @ dir @ ''/'' @ base') True)
                = map_sum id name (CSVFile_init w (pre @ ''/'' @ dir @ ''/'' @ base) True))"
proof -
  note r = CSVFile_init_rename [OF assms]
  have 2: "dir = ''E'' @ n @ ''P'' @ m \<Longrightarrow> base = ''F0000CH'' @ [ch] @ ''.CSV''
     \<Longrightarrow> lower dir @ ''.'' @ lower (last7 base)
         = ''e'' @ lower n @ ''p'' @ lower m @ ''.ch'' @ lower [ch] @ ''.csv''"
    using last7_channel [of ch] by simp
  have 3: "CHR ''/'' \<notin> set base' \<Longrightarrow> path_exists w' (pre' @ ''/'' @ dir @ ''/'' @ base')
     \<Longrightarrow> last7 base' = last7 base
     \<Longrightarrow> map_sum id name (CSVFile_init w' (pre' @ ''/'' @ dir @ ''/'' @ base') True)
                = map_sum id name (CSVFile_init w (pre @ ''/'' @ dir @ ''/'' @ base) True)"
    for w' pre' base'
    using CSVFile_init_rename [OF assms(1), of base' w' pre'] r by simp
  show ?thesis
  proof (intro conjI impI allI)
    show "CSVFile_init w (pre @ ''/'' @ dir @ ''/'' @ base) True
           = Inr \<lparr>location = pre @ ''/'' @ dir @ ''/'' @ base,
                  name = lower dir @ ''.'' @ lower (last7 base)\<rparr>"
      by (rule r)
  next
    assume "dir = ''E'' @ n @ ''P'' @ m \<and> base = ''F0000CH'' @ [ch] @ ''.CSV''"
    then have "lower dir @ ''.'' @ lower (last7 base)
         = ''e'' @ lower n @ ''p'' @ lower m @ ''.ch'' @ lower [ch] @ ''.csv''"
      using 2 by blast
    then show "CSVFile_init w (pre @ ''/'' @ dir @ ''/'' @ base) True
                = Inr \<lparr>location = pre @ ''/'' @ dir @ ''/'' @ base,
                       name = ''e'' @ lower n @ ''p'' @ lower m @ ''.ch'' @ lower [ch] @ ''.csv''\<rparr>"
      unfolding r by simp
  next
    fix w' pre' base'
    assume "CHR ''/'' \<notin> set base' \<and> path_exists w' (pre' @ ''/'' @ dir @ ''/'' @ base')
              \<and> last7 base' = last7 base"
    then show "map_sum id name (CSVFile_init w' (pre' @ ''/'' @ dir @ ''/'' @ base') True)
                = map_sum id name (CSVFile_init w (pre @ ''/'' @ dir @ ''/'' @ base) True)"
      using 3 by blast
  qed
qed

theorem csv_rename_witness:
  "path_exists scope_drive ''/Volumes/ECE65-DATA/E1P1/F0000CH1.CSV''
   \<and> CSVFile_init scope_drive ''/Volumes/ECE65-DATA/E1P1/F0000CH1.CSV'' True
       = Inr \<lparr>location = ''/Volumes/ECE65-DATA/E1P1/F0000CH1.CSV'', name = ''e1p1.ch1.csv''\<rparr>"
proof -
  have e: "path_exists scope_drive (''/Volumes/ECE65-DATA'' @ ''/'' @ ''E1P1'' @ ''/'' @ ''F0000CH1.CSV'')"
    by code_simp
  have n: "lower ''E1P1'' @ ''.'' @ lower (last7 ''F0000CH1.CSV'') = ''e1p1.ch1.csv''"
    by code_simp
  have "CHR ''/'' \<notin> set ''E1P1''" "CHR ''/'' \<notin> set ''F0000CH1.CSV''" by simp_all
  from csv_rename [OF this e, of "''1''" "''1''" "CHR ''1''"] n e
  show ?thesis by simp
qed

section \<open>A soft run\<close>

text \<open>
  Claim C9, amended.  For a copier built by the constructor, a soft run (\<open>softrun=True\<close>)
  never changes which paths hold files nor what they contain, whatever its outcome.  When
  it returns normally and the destination held neither \<open>jpgs\<close> (for \<open>save_jpg\<close>) nor a
  folder named like an exercise part (for \<open>create_folders\<close>), every directory it made has
  been removed again and the file system is exactly as before.
\<close>

theorem softrun_leaves_destination:
  assumes "OscilloscopeDataCopier_init w0 dname = Inr self"
    and "copy_scope_data self w destination create_folders rename_csv save_jpg verb True = (r, w')"
  shows "same_files w w'
         \<and> (r = Inr ()
            \<and> (save_jpg \<longrightarrow> \<not> path_exists w (path_join destination ''jpgs''))
            \<and> (create_folders \<longrightarrow>
                 (\<forall>p\<in>set (exercise_parts self).
                    \<not> path_exists w (path_join destination (basename p))))
            \<longrightarrow> w' = w)"
proof (intro conjI impI)
  from assms(2) show "same_files w w'"
  proof (cases rule: copy_scope_data_cases)
    case no_dest
    then show ?thesis by simp
  next
    case (jpg_fail e)
    then show ?thesis by (auto split: if_splits dest: save_jpgs_softrun_same_files)
  next
    case (ok w1)
    then have "same_files w w1" "same_files w1 w'"
      by (auto split: if_splits dest: save_jpgs_softrun_same_files csv_loop_softrun_same_files)
    then show ?thesis by (rule same_files_trans)
  qed
next
  assume h: "r = Inr ()
            \<and> (save_jpg \<longrightarrow> \<not> path_exists w (path_join destination ''jpgs''))
            \<and> (create_folders \<longrightarrow>
                 (\<forall>p\<in>set (exercise_parts self).
                    \<not> path_exists w (path_join destination (basename p))))"
  from assms(2) show "w' = w"
  proof (cases rule: copy_scope_data_cases)
    case no_dest
    then show ?thesis by simp
  next
    case (jpg_fail e)
    with h show ?thesis by simp
  next
    case (ok w1)
    have w1: "w1 = w"
    proof (cases save_jpg)
      case True
      with ok(2) h show ?thesis by (auto intro: save_jpgs_softrun_unchanged [OF _ ok(1)])
    next
      case False
      with ok(2) show ?thesis by simp
    qed
    have "create_folders \<Longrightarrow> \<forall>p\<in>set (exercise_parts self).
        plain (basename p) \<and> \<not> path_exists w (path_join destination (basename p))"
      using h init_parts [OF assms(1)] by blast
    with ok(1,3) h w1 show ?thesis by (auto intro: csv_loop_softrun_unchanged)
  qed
qed

theorem softrun_leaves_destination_witness:
  "OscilloscopeDataCopier_init scope_drive ''ECE65-DATA'' = Inr scope_copier
   \<and> fst (copy_scope_data scope_copier scope_drive ''/out'' True True True True True) = Inr ()
   \<and> \<not> path_exists scope_drive (path_join ''/out'' ''jpgs'')
   \<and> \<not> path_exists scope_drive (path_join ''/out'' (basename ''/Volumes/ECE65-DATA/E1P1''))
   \<and> snd (copy_scope_data scope_copier scope_drive ''/out'' True True True True True) = scope_drive"
proof -
  have i: "OscilloscopeDataCopier_init scope_drive ''ECE65-DATA'' = Inr scope_copier"
    by code_simp
  have r: "fst (copy_scope_data scope_copier scope_drive ''/out'' True True True True True) = Inr ()"
    by code_simp
  have j: "\<not> path_exists scope_drive (path_join ''/out'' ''jpgs'')" by code_simp
  have f: "\<not> path_exists scope_drive (path_join ''/out'' (basename ''/Volumes/ECE65-DATA/E1P1''))"
    by code_simp
  have p: "exercise_parts scope_copier = [''/Volumes/ECE65-DATA/E1P1'']"
    by (simp add: scope_copier_def)
  obtain w' where c: "copy_scope_data scope_copier scope_drive ''/out'' True True True True True
      = (Inr (), w')"
    using r by (cases "copy_scope_data scope_copier scope_drive ''/out'' True True True True True") auto
  from softrun_leaves_destination [OF i c] j f p have "w' = scope_drive" by simp
  with i r j f c show ?thesis by simp
qed

text \<open>
  Without the normal return the claim fails: the directories are removed at the end of
  the block that made them and not when an exception leaves it.  On the drive whose
  folder \<open>E1P1\<close> has no screen capture the soft run makes \<open>/out/jpgs\<close>, raises
  \<open>IndexError\<close>, and leaves the directory behind.
\<close>

theorem softrun_raise_leaves_jpgs:
  "OscilloscopeDataCopier_init csv_only_drive ''ECE65-DATA'' = Inr scope_copier
   \<and> path_exists csv_only_drive ''/out''
   \<and> lookup csv_only_drive [''out'', ''jpgs''] = None
   \<and> copy_scope_data scope_copier csv_only_drive ''/out'' False True True True True
       = (Inl IndexError, put csv_only_drive [''out'', ''jpgs''] Dir)
   \<and> lookup (snd (copy_scope_data scope_copier csv_only_drive ''/out'' False True True True True))
        [''out'', ''jpgs''] = Some Dir
   \<and> listdir (snd (copy_scope_data scope_copier csv_only_drive ''/out'' False True True True True))
        [''out''] = [''jpgs'']
   \<and> listdir csv_only_drive [''out''] = []"
  by code_simp

section \<open>The source drive\<close>

text \<open>
  Claim C8, amended.  For a copier built by the constructor and a destination that is
  neither on the drive nor a directory containing it, \<open>copy_scope_data\<close> leaves every
  path at or below the drive location as it was (same node, same content), whatever the
  flags and whatever the outcome.
\<close>

theorem source_drive_untouched:
  assumes "OscilloscopeDataCopier_init w0 dname = Inr self"
    and "copy_scope_data self w destination create_folders rename_csv save_jpg verb softrun = (r, w')"
    and "\<not> prefix (resolve w (drive_location self)) (resolve w destination)"
    and "\<not> prefix (resolve w destination) (resolve w (drive_location self))"
  shows "\<forall>k. prefix (resolve w (drive_location self)) k \<longrightarrow> lookup w' k = lookup w k"
proof (intro allI impI)
  fix k
  assume k: "prefix (resolve w (drive_location self)) k"
  have f: "frame (resolve w destination) w w'"
    using init_parts_plain [OF assms(1)] assms(2) by (rule frame_copy_scope_data)
  have "\<not> strict_prefix (resolve w destination) k"
  proof
    assume "strict_prefix (resolve w destination) k"
    then have "prefix (resolve w destination) k" by (simp add: strict_prefix_def)
    with k have "prefix (resolve w (drive_location self)) (resolve w destination)
        \<or> prefix (resolve w destination) (resolve w (drive_location self))"
      by (rule prefix_same_cases)
    with assms(3,4) show False by simp
  qed
  with f show "lookup w' k = lookup w k" by (rule frame_lookup)
qed

theorem source_drive_untouched_witness:
  "OscilloscopeDataCopier_init scope_drive ''ECE65-DATA'' = Inr scope_copier
   \<and> \<not> prefix (resolve scope_drive (drive_location scope_copier)) (resolve scope_drive ''/out'')
   \<and> \<not> prefix (resolve scope_drive ''/out'') (resolve scope_drive (drive_location scope_copier))
   \<and> prefix (resolve scope_drive (drive_location scope_copier))
        [''Volumes'', ''ECE65-DATA'', ''E1P1'', ''F0000CH1.CSV'']
   \<and> lookup (snd (copy_scope_data scope_copier scope_drive ''/out'' False True True True False))
        [''Volumes'', ''ECE65-DATA'', ''E1P1'', ''F0000CH1.CSV'']
       = lookup scope_drive [''Volumes'', ''ECE65-DATA'', ''E1P1'', ''F0000CH1.CSV'']"
proof -
  have i: "OscilloscopeDataCopier_init scope_drive ''ECE65-DATA'' = Inr scope_copier"
    by code_simp
  have a: "\<not> prefix (resolve scope_drive (drive_location scope_copier)) (resolve scope_drive ''/out'')"
    by code_simp
  have b: "\<not> prefix (resolve scope_drive ''/out'') (resolve scope_drive (drive_location scope_copier))"
    by code_simp
  have p: "prefix (resolve scope_drive (drive_location scope_copier))
        [''Volumes'', ''ECE65-DATA'', ''E1P1'', ''F0000CH1.CSV'']"
    by code_simp
  obtain r w' where c: "copy_scope_data scope_copier scope_drive ''/out'' False True True True False
      = (r, w')"
    by (cases "copy_scope_data scope_copier scope_drive ''/out'' False True True True False")
  from source_drive_untouched [OF i c a b] p
  have "lookup w' [''Volumes'', ''ECE65-DATA'', ''E1P1'', ''F0000CH1.CSV'']
      = lookup scope_drive [''Volumes'', ''ECE65-DATA'', ''E1P1'', ''F0000CH1.CSV'']"
    by blast
  with i a b p c show ?thesis by simp
qed

text \<open>
  Without that condition the claim fails.  With the second exercise part as destination
  and \<open>rename_csv=False\<close>, the channel file of the first part replaces that of the second
  before the call stops with SameFileError; with the first part as destination and the
  default flags, an earlier \<open>e1p1.ch1.csv\<close> on the drive is overwritten.
\<close>

theorem destination_on_drive_counterexample:
  "OscilloscopeDataCopier_init two_part_drive ''ECE65-DATA'' = Inr two_part_copier
   \<and> lookup two_part_drive [''Volumes'', ''ECE65-DATA'', ''E2P1'', ''F0000CH1.CSV'']
       = Some (File (Data ''part two''))
   \<and> lookup (snd (copy_scope_data two_part_copier two_part_drive ''/Volumes/ECE65-DATA/E2P1''
                    False False False True False))
        [''Volumes'', ''ECE65-DATA'', ''E2P1'', ''F0000CH1.CSV'']
       = Some (File (Data ''part one''))
   \<and> OscilloscopeDataCopier_init recaptured_drive ''ECE65-DATA'' = Inr scope_copier
   \<and> lookup recaptured_drive [''Volumes'', ''ECE65-DATA'', ''E1P1'', ''e1p1.ch1.csv'']
       = Some (File (Data ''old capture''))
   \<and> copy_scope_data scope_copier recaptured_drive ''/Volumes/ECE65-DATA/E1P1''
        False True True True False
       = (Inr (), put (put (put recaptured_drive
            [''Volumes'', ''ECE65-DATA'', ''E1P1'', ''jpgs''] Dir)
            [''Volumes'', ''ECE65-DATA'', ''E1P1'', ''jpgs'', ''e1p1.jpg''] (File (Data ''screen'')))
            [''Volumes'', ''ECE65-DATA'', ''E1P1'', ''e1p1.ch1.csv''] (File (Data ''new capture'')))"
  by code_simp

section \<open>Idempotence\<close>

text \<open>
  Claim C6.  Take a copier built by the constructor and a destination that is neither on
  the drive nor a directory containing it, so that copying does not change the drive.
  If \<open>copy_scope_data\<close> with \<open>softrun=False\<close> completes, then running it again with the
  same arguments completes too and leaves every path with the node and the content it had
  after the first run, in the same order of enumeration.
\<close>

theorem copy_twice_same_tree:
  assumes "OscilloscopeDataCopier_init w0 dname = Inr self"
    and "\<not> prefix (resolve w (drive_location self)) (resolve w destination)"
    and "\<not> prefix (resolve w destination) (resolve w (drive_location self))"
    and "copy_scope_data self w destination create_folders rename_csv save_jpg verb False = (Inr (), w1)"
  shows "\<exists>w2. copy_scope_data self w1 destination create_folders rename_csv save_jpg verb False
                = (Inr (), w2)
              \<and> (\<forall>k. lookup w2 k = lookup w1 k)
              \<and> map fst (files w2) = map fst (files w1)
              \<and> cwd w2 = cwd w1"
proof -
  note parts = parts_off_destination [OF assms(1,2,3)]
  then have pl: "\<forall>p\<in>set (exercise_parts self). plain (basename p)" by simp
  have fr: "frame (resolve w destination) w w1" using pl assms(4) by (rule frame_copy_scope_data)
  then have rr: "rerun (resolve w destination) w1 w w1" by (rule rerun_start)
  from sim_copy_scope_data [OF assms(4) grows_refl rr parts]
  obtain w2 where w2: "copy_scope_data self w1 destination create_folders rename_csv save_jpg verb False
      = (Inr (), w2)" "rerun (resolve w destination) w1 w1 w2" by blast
  from rerun_final [OF w2(2)] rerun_frame [OF w2(2)] w2(1) show ?thesis
    by (auto simp: frame_def)
qed

theorem copy_twice_same_tree_witness:
  "OscilloscopeDataCopier_init scope_drive ''ECE65-DATA'' = Inr scope_copier
   \<and> \<not> prefix (resolve scope_drive (drive_location scope_copier)) (resolve scope_drive ''/out'')
   \<and> \<not> prefix (resolve scope_drive ''/out'') (resolve scope_drive (drive_location scope_copier))
   \<and> fst (copy_scope_data scope_copier scope_drive ''/out'' False True True True False) = Inr ()
   \<and> fst (copy_scope_data scope_copier
            (snd (copy_scope_data scope_copier scope_drive ''/out'' False True True True False))
            ''/out'' False True True True False) = Inr ()
   \<and> (\<forall>k. lookup (snd (copy_scope_data scope_copier
                 (snd (copy_scope_data scope_copier scope_drive ''/out'' False True True True False))
                 ''/out'' False True True True False)) k
          = lookup (snd (copy_scope_data scope_copier scope_drive ''/out'' False True True True False)) k)"
proof -
  have i: "OscilloscopeDataCopier_init scope_drive ''ECE65-DATA'' = Inr scope_copier"
    by code_simp
  have a: "\<not> prefix (resolve scope_drive (drive_location scope_copier)) (resolve scope_drive ''/out'')"
    by code_simp
  have b: "\<not> prefix (resolve scope_drive ''/out'') (resolve scope_drive (drive_location scope_copier))"
    by code_simp
  have r: "fst (copy_scope_data scope_copier scope_drive ''/out'' False True True True False) = Inr ()"
    by code_simp
  obtain w1 where c: "copy_scope_data scope_copier scope_drive ''/out'' False True True True False
      = (Inr (), w1)"
    using r by (cases "copy_scope_data scope_copier scope_drive ''/out'' False True True True False") auto
  from copy_twice_same_tree [OF i a b c] i a b r c show ?thesis by auto
qed

section \<open>One JPG for each exercise part\<close>

text \<open>
  Claim C10, amended.  Take a copier built by the constructor whose exercise parts have
  paths without the wildcard characters \<open>*\<close>, \<open>?\<close> and \<open>[\<close> (so that \<open>glob\<close> reads each
  part's own folder), and a call of \<open>copy_scope_data\<close> with \<open>save_jpg=True\<close> and
  \<open>softrun=False\<close> that completes, where no directory stands at a path
  \<open><destination>/jpgs/<part in lower case>.jpg\<close>.  Then:

  \<^item> for every exercise part that path holds, at the end, the content of the first \<open>*.JPG\<close>
    match of a part of that lower-case name;
  \<^item> it is the first match of the part itself when no other part has the same lower-case
    name;
  \<^item> nothing else at or below \<open><destination>/jpgs\<close> has changed;
  \<^item> every other path that the call has changed is a folder named like an exercise part
    that is now a directory, or holds what a file with a name matching \<open>*.CSV\<close> held
    before the call: no other JPG is copied anywhere.
\<close>

theorem one_jpg_per_part:
  assumes "OscilloscopeDataCopier_init w0 dname = Inr self"
    and "copy_scope_data self w destination create_folders rename_csv True verb False = (Inr (), w')"
    and "\<forall>p\<in>set (exercise_parts self). \<not> has_magic p"
    and "\<forall>p\<in>set (exercise_parts self). \<not> isdir w (jpg_path destination p)"
  shows "(\<forall>p\<in>set (exercise_parts self). \<exists>q\<in>set (exercise_parts self).
            jpg_name q = jpg_name p
            \<and> first_jpg_at w q w' (resolve w (jpg_path destination p)))
       \<and> (\<forall>p\<in>set (exercise_parts self).
            (\<forall>q\<in>set (exercise_parts self). jpg_name q = jpg_name p \<longrightarrow> q = p)
            \<longrightarrow> first_jpg_at w p w' (resolve w (jpg_path destination p)))
       \<and> (\<forall>k. prefix (resolve w (path_join destination ''jpgs'')) k \<and> lookup w' k \<noteq> lookup w k
            \<longrightarrow> k = resolve w (path_join destination ''jpgs'')
                \<or> (\<exists>p\<in>set (exercise_parts self). k = resolve w (jpg_path destination p)))
       \<and> (\<forall>k. lookup w' k = lookup w k
            \<or> k = resolve w (path_join destination ''jpgs'')
            \<or> (\<exists>p\<in>set (exercise_parts self). k = resolve w (jpg_path destination p))
            \<or> (\<exists>p\<in>set (exercise_parts self).
                  k = resolve w (path_join destination (basename p)) \<and> lookup w' k = Some Dir)
            \<or> (\<exists>c. csv_content w c \<and> lookup w' k = Some (File c)))"
  using assms(2)
proof (cases rule: copy_scope_data_cases)
  case (ok wm)
  let ?J = "resolve w (path_join destination ''jpgs'')"
  let ?d = "resolve w (drive_location self)"
  have parts: "\<forall>p\<in>set (exercise_parts self). plain (basename p) \<and> fnmatch (basename p) ''E*P*''
      \<and> resolve w p = ?d @ [basename p]"
    using init_parts [OF assms(1), of _ w] by blast
  have sj: "save_jpgs self w destination verb False = (Inr (), wm)" using ok(2) by simp
  from save_jpgs_effect [OF sj ok(1) parts assms(4)]
  have cw: "cwd wm = cwd w"
    and F: "\<forall>k. lookup wm k \<noteq> lookup w k \<longrightarrow>
            k = ?J \<or> (\<exists>p\<in>set (exercise_parts self). k = resolve w (jpg_path destination p))"
    and B: "\<forall>p\<in>set (exercise_parts self). \<exists>q\<in>set (exercise_parts self). jpg_name q = jpg_name p
           \<and> first_jpg_at w q wm (resolve w (jpg_path destination p))"
    by simp_all
  have res: "resolve wm q = resolve w q" for q using cw by (rule resolve_cwd)
  have fr: "frame (resolve w destination) w wm"
    using ok(1) _ sj by (rule frame_save_jpgs) (use parts in simp)
  have ex: "path_exists wm destination" using fr ok(1) by (simp add: frame_path_exists)
  have J: "?J = resolve wm destination @ [''jpgs'']" by (simp add: res resolve_join)
  have keep: "lookup w' k = lookup wm k" if "prefix ?J k" for k
    using ok(3) ex _ that [unfolded J] by (rule csv_loop_keeps_jpgs) (use parts in simp)
  have kept: "csv_kept w wm" using F by (rule csv_kept_after_jpgs)
  have pl: "\<forall>p\<in>set (exercise_parts self). plain (basename p)" using parts by simp
  from csv_loop_copies [OF ok(3) ex pl kept]
  have C: "\<forall>k. lookup w' k = lookup wm k
              \<or> (\<exists>p\<in>set (exercise_parts self).
                    k = resolve wm destination @ [basename p] \<and> lookup w' k = Some Dir)
              \<or> (\<exists>c. csv_content w c \<and> lookup w' k = Some (File c))"
    by simp
  have A: "\<exists>q\<in>set (exercise_parts self). jpg_name q = jpg_name p
            \<and> first_jpg_at w q w' (resolve w (jpg_path destination p))"
    if p: "p \<in> set (exercise_parts self)" for p
  proof -
    from p B obtain q where q: "q \<in> set (exercise_parts self)" "jpg_name q = jpg_name p"
      "first_jpg_at w q wm (resolve w (jpg_path destination p))" by blast
    have "prefix ?J (resolve w (jpg_path destination p))"
      by (simp add: resolve_jpg_path resolve_join)
    then have "lookup w' (resolve w (jpg_path destination p))
        = lookup wm (resolve w (jpg_path destination p))" by (rule keep)
    with q(3) have "first_jpg_at w q w' (resolve w (jpg_path destination p))"
      by (simp add: first_jpg_at_def)
    with q(1,2) show ?thesis by blast
  qed
  show ?thesis
  proof (intro conjI ballI allI impI)
    fix p
    assume "p \<in> set (exercise_parts self)"
    then show "\<exists>q\<in>set (exercise_parts self). jpg_name q = jpg_name p
            \<and> first_jpg_at w q w' (resolve w (jpg_path destination p))" by (rule A)
  next
    fix p
    assume p: "p \<in> set (exercise_parts self)"
      and u: "\<forall>q\<in>set (exercise_parts self). jpg_name q = jpg_name p \<longrightarrow> q = p"
    from A [OF p] obtain q where q: "q \<in> set (exercise_parts self)" "jpg_name q = jpg_name p"
      "first_jpg_at w q w' (resolve w (jpg_path destination p))" by blast
    from u q(1,2) have "q = p" by blast
    with q(3) show "first_jpg_at w p w' (resolve w (jpg_path destination p))" by simp
  next
    fix k
    assume a: "prefix ?J k \<and> lookup w' k \<noteq> lookup w k"
    then have "prefix ?J k" by simp
    from keep [OF this] a have "lookup wm k \<noteq> lookup w k" by simp
    with F show "k = ?J \<or> (\<exists>p\<in>set (exercise_parts self). k = resolve w (jpg_path destination p))"
      by blast
  next
    fix k
    from C have 1: "lookup w' k = lookup wm k
              \<or> (\<exists>p\<in>set (exercise_parts self).
                    k = resolve wm destination @ [basename p] \<and> lookup w' k = Some Dir)
              \<or> (\<exists>c. csv_content w c \<and> lookup w' k = Some (File c))" ..
    from F have 2: "lookup wm k = lookup w k \<or> k = ?J
        \<or> (\<exists>p\<in>set (exercise_parts self). k = resolve w (jpg_path destination p))" by blast
    have 3: "resolve w (path_join destination (basename p)) = resolve wm destination @ [basename p]"
      if "p \<in> set (exercise_parts self)" for p
      using that pl by (simp add: res resolve_join)
    from 1 2 3 show "lookup w' k = lookup w k
            \<or> k = ?J
            \<or> (\<exists>p\<in>set (exercise_parts self). k = resolve w (jpg_path destination p))
            \<or> (\<exists>p\<in>set (exercise_parts self).
                  k = resolve w (path_join destination (basename p)) \<and> lookup w' k = Some Dir)
            \<or> (\<exists>c. csv_content w c \<and> lookup w' k = Some (File c))"
      by auto
  qed
qed simp_all

theorem one_jpg_per_part_witness:
  "OscilloscopeDataCopier_init two_jpg_drive ''ECE65-DATA'' = Inr two_jpg_copier
   \<and> exercise_parts two_jpg_copier = [''/Volumes/ECE65-DATA/E1P2'']
   \<and> fst (copy_scope_data two_jpg_copier two_jpg_drive ''/out'' False True True True False) = Inr ()
   \<and> \<not> has_magic ''/Volumes/ECE65-DATA/E1P2''
   \<and> \<not> isdir two_jpg_drive (jpg_path ''/out'' ''/Volumes/ECE65-DATA/E1P2'')
   \<and> resolve two_jpg_drive (jpg_path ''/out'' ''/Volumes/ECE65-DATA/E1P2'')
       = [''out'', ''jpgs'', ''e1p2.jpg'']
   \<and> glob two_jpg_drive (path_join ''/Volumes/ECE65-DATA/E1P2'' ''*.JPG'')
       = [''/Volumes/ECE65-DATA/E1P2/F0000TEK.JPG'', ''/Volumes/ECE65-DATA/E1P2/F0001TEK.JPG'']
   \<and> first_jpg_at two_jpg_drive ''/Volumes/ECE65-DATA/E1P2''
        (snd (copy_scope_data two_jpg_copier two_jpg_drive ''/out'' False True True True False))
        [''out'', ''jpgs'', ''e1p2.jpg'']"
proof -
  have i: "OscilloscopeDataCopier_init two_jpg_drive ''ECE65-DATA'' = Inr two_jpg_copier"
    by code_simp
  have r: "fst (copy_scope_data two_jpg_copier two_jpg_drive ''/out'' False True True True False) = Inr ()"
    by code_simp
  have m: "\<not> has_magic ''/Volumes/ECE65-DATA/E1P2''" by code_simp
  have d: "\<not> isdir two_jpg_drive (jpg_path ''/out'' ''/Volumes/ECE65-DATA/E1P2'')"
    by code_simp
  have k: "resolve two_jpg_drive (jpg_path ''/out'' ''/Volumes/ECE65-DATA/E1P2'')
       = [''out'', ''jpgs'', ''e1p2.jpg'']"
    by code_simp
  have g: "glob two_jpg_drive (path_join ''/Volumes/ECE65-DATA/E1P2'' ''*.JPG'')
       = [''/Volumes/ECE65-DATA/E1P2/F0000TEK.JPG'', ''/Volumes/ECE65-DATA/E1P2/F0001TEK.JPG'']"
    by code_simp
  have p: "exercise_parts two_jpg_copier = [''/Volumes/ECE65-DATA/E1P2'']"
    by (simp add: two_jpg_copier_def)
  obtain w' where c: "copy_scope_data two_jpg_copier two_jpg_drive ''/out'' False True True True False
      = (Inr (), w')"
    using r by (cases "copy_scope_data two_jpg_copier two_jpg_drive ''/out'' False True True True False") auto
  have hm: "\<forall>p\<in>set (exercise_parts two_jpg_copier). \<not> has_magic p" using m p by simp
  have hd: "\<forall>p\<in>set (exercise_parts two_jpg_copier). \<not> isdir two_jpg_drive (jpg_path ''/out'' p)"
    using d p by simp
  from one_jpg_per_part [OF i c hm hd] p k
  have "first_jpg_at two_jpg_drive ''/Volumes/ECE65-DATA/E1P2'' w' [''out'', ''jpgs'', ''e1p2.jpg'']"
    by simp
  with i r m d k g c p show ?thesis by simp
qed

text \<open>
  The claim as first worded fails in three ways.  On a drive with the parts \<open>EaP1\<close> and
  \<open>EAP1\<close> both screen captures are saved as \<open>jpgs/eap1.jpg\<close>, so two matched parts leave
  one file, which holds the capture of the second.  When a directory already stands at
  \<open>jpgs/e1p1.jpg\<close>, the capture is copied into it under its own name \<open>F0000TEK.JPG\<close>.
  When the first part has no screen capture the call raises \<open>IndexError\<close> and nothing is
  saved for the second part, which has one.
\<close>

theorem jpg_not_saved_for_each_part:
  "OscilloscopeDataCopier_init same_name_drive ''ECE65-DATA'' = Inr same_name_copier
   \<and> exercise_parts same_name_copier = [''/Volumes/ECE65-DATA/EaP1'', ''/Volumes/ECE65-DATA/EAP1'']
   \<and> fst (copy_scope_data same_name_copier same_name_drive ''/out'' False True True True False)
       = Inr ()
   \<and> listdir (snd (copy_scope_data same_name_copier same_name_drive ''/out'' False True True True False))
       [''out'', ''jpgs''] = [''eap1.jpg'']
   \<and> lookup (snd (copy_scope_data same_name_copier same_name_drive ''/out'' False True True True False))
       [''out'', ''jpgs'', ''eap1.jpg''] = Some (File (Data ''screen of EAP1''))
   \<and> OscilloscopeDataCopier_init occupied_drive ''ECE65-DATA'' = Inr scope_copier
   \<and> fst (copy_scope_data scope_copier occupied_drive ''/out'' False True True True False) = Inr ()
   \<and> lookup (snd (copy_scope_data scope_copier occupied_drive ''/out'' False True True True False))
       [''out'', ''jpgs'', ''e1p1.jpg''] = Some Dir
   \<and> lookup (snd (copy_scope_data scope_copier occupied_drive ''/out'' False True True True False))
       [''out'', ''jpgs'', ''e1p1.jpg'', ''F0000TEK.JPG''] = Some (File (Data ''screen''))
   \<and> OscilloscopeDataCopier_init late_jpg_drive ''ECE65-DATA'' = Inr two_part_copier
   \<and> glob late_jpg_drive (path_join ''/Volumes/ECE65-DATA/E2P1'' ''*.JPG'')
       = [''/Volumes/ECE65-DATA/E2P1/F0000TEK.JPG'']
   \<and> fst (copy_scope_data two_part_copier late_jpg_drive ''/out'' False True True True False)
       = Inl IndexError
   \<and> listdir (snd (copy_scope_data two_part_copier late_jpg_drive ''/out'' False True True True False))
       [''out'', ''jpgs''] = []"
proof (intro conjI)
  show "OscilloscopeDataCopier_init same_name_drive ''ECE65-DATA'' = Inr same_name_copier"
    by code_simp
  show "exercise_parts same_name_copier = [''/Volumes/ECE65-DATA/EaP1'', ''/Volumes/ECE65-DATA/EAP1'']"
    by (simp add: same_name_copier_def)
  show "fst (copy_scope_data same_name_copier same_name_drive ''/out'' False True True True False)
       = Inr ()"
    by code_simp
  show "listdir (snd (copy_scope_data same_name_copier same_name_drive ''/out'' False True True True False))
       [''out'', ''jpgs''] = [''eap1.jpg'']"
    by code_simp
  show "lookup (snd (copy_scope_data same_name_copier same_name_drive ''/out'' False True True True False))
       [''out'', ''jpgs'', ''eap1.jpg''] = Some (File (Data ''screen of EAP1''))"
    by code_simp
  show "OscilloscopeDataCopier_init occupied_drive ''ECE65-DATA'' = Inr scope_copier"
    by code_simp
  show "fst (copy_scope_data scope_copier occupied_drive ''/out'' False True True True False) = Inr ()"
    by code_simp
  show "lookup (snd (copy_scope_data scope_copier occupied_drive ''/out'' False True True True False))
       [''out'', ''jpgs'', ''e1p1.jpg''] = Some Dir"
    by code_simp
  show "lookup (snd (copy_scope_data scope_copier occupied_drive ''/out'' False True True True False))
       [''out'', ''jpgs'', ''e1p1.jpg'', ''F0000TEK.JPG''] = Some (File (Data ''screen''))"
    by code_simp
  show "OscilloscopeDataCopier_init late_jpg_drive ''ECE65-DATA'' = Inr two_part_copier"
    by code_simp
  show "glob late_jpg_drive (path_join ''/Volumes/ECE65-DATA/E2P1'' ''*.JPG'')
       = [''/Volumes/ECE65-DATA/E2P1/F0000TEK.JPG'']"
    by code_simp
  show "fst (copy_scope_data two_part_copier late_jpg_drive ''/out'' False True True True False)
       = Inl IndexError"
    by code_simp
  show "listdir (snd (copy_scope_data two_part_copier late_jpg_drive ''/out'' False True True True False))
       [''out'', ''jpgs''] = []"
    by code_simp
qed

end
